theory Spec2Isabelle
  imports Complex_Main "HOL-Library.Word"
begin

unbundle bit_operations_syntax

section \<open>Machine values\<close>

text \<open>
  \<open>u_int\<close> is the 32-bit unsigned integer of the source and \<open>uint64_t\<close> the value of a
  model-specific register.  Counters and indices that the loops of the program run over
  (\<open>cpu_count\<close>, \<open>share_count\<close>, \<open>core\<close>) are natural numbers, and every \<open>u_int\<close>
  addition or subtraction on them is written with its wrap-around at \<open>2 ^ 32\<close>.
\<close>

type_synonym u_int = "32 word"
type_synonym uint64_t = "64 word"

definition u32_add :: "nat \<Rightarrow> nat \<Rightarrow> nat" where
  "u32_add a b = (a + b) mod 2 ^ 32"

definition u32_sub :: "nat \<Rightarrow> nat \<Rightarrow> nat" where
  "u32_sub a b = (a + 2 ^ 32 - b mod 2 ^ 32) mod 2 ^ 32"

definition u32_mul :: "nat \<Rightarrow> nat \<Rightarrow> nat" where
  "u32_mul a b = (a * b) mod 2 ^ 32"

text \<open>
  A C \<open>double\<close> is a real number or one of the three special values of IEEE 754.
  Rounding is not modelled: a finite result is the exact real result.  The special values
  are needed because \<open>main\<close> divides by the interval, which can be zero.  The sign of
  zero is not modelled; the only zero the program divides by is the conversion of the
  integer 0, which is the positive zero.
\<close>

datatype double = Finite real | PosInf | NegInf | NaN

fun dneg :: "double \<Rightarrow> double" where
  "dneg (Finite a) = Finite (- a)"
| "dneg PosInf = NegInf"
| "dneg NegInf = PosInf"
| "dneg NaN = NaN"

fun dadd :: "double \<Rightarrow> double \<Rightarrow> double" where
  "dadd (Finite a) (Finite b) = Finite (a + b)"
| "dadd (Finite a) PosInf = PosInf"
| "dadd (Finite a) NegInf = NegInf"
| "dadd PosInf (Finite b) = PosInf"
| "dadd PosInf PosInf = PosInf"
| "dadd PosInf NegInf = NaN"
| "dadd NegInf (Finite b) = NegInf"
| "dadd NegInf PosInf = NaN"
| "dadd NegInf NegInf = NegInf"
| "dadd NaN b = NaN"
| "dadd a NaN = NaN"

definition dsub :: "double \<Rightarrow> double \<Rightarrow> double" where
  "dsub a b = dadd a (dneg b)"

definition inf_of_sign :: "real \<Rightarrow> double" where
  "inf_of_sign s = (if s = 0 then NaN else if 0 < s then PosInf else NegInf)"

fun dmul :: "double \<Rightarrow> double \<Rightarrow> double" where
  "dmul (Finite a) (Finite b) = Finite (a * b)"
| "dmul (Finite a) PosInf = inf_of_sign a"
| "dmul (Finite a) NegInf = inf_of_sign (- a)"
| "dmul PosInf (Finite b) = inf_of_sign b"
| "dmul NegInf (Finite b) = inf_of_sign (- b)"
| "dmul PosInf PosInf = PosInf"
| "dmul PosInf NegInf = NegInf"
| "dmul NegInf PosInf = NegInf"
| "dmul NegInf NegInf = PosInf"
| "dmul NaN b = NaN"
| "dmul a NaN = NaN"

fun ddiv :: "double \<Rightarrow> double \<Rightarrow> double" where
  "ddiv (Finite a) (Finite b) = (if b = 0 then inf_of_sign a else Finite (a / b))"
| "ddiv (Finite a) PosInf = Finite 0"
| "ddiv (Finite a) NegInf = Finite 0"
| "ddiv PosInf (Finite b) = (if 0 \<le> b then PosInf else NegInf)"
| "ddiv NegInf (Finite b) = (if 0 \<le> b then NegInf else PosInf)"
| "ddiv PosInf PosInf = NaN"
| "ddiv PosInf NegInf = NaN"
| "ddiv NegInf PosInf = NaN"
| "ddiv NegInf NegInf = NaN"
| "ddiv NaN b = NaN"
| "ddiv a NaN = NaN"

definition double_of_uint64 :: "uint64_t \<Rightarrow> double" where
  "double_of_uint64 w = Finite (real (unat w))"

definition double_of_int :: "int \<Rightarrow> double" where
  "double_of_int i = Finite (real_of_int i)"

text \<open>
  Conversion of a \<open>double\<close> to \<open>int\<close> truncates towards zero.  A value outside the
  range of \<open>int\<close> has no defined conversion in C; the x86 conversion instruction then
  yields \<open>- 2 ^ 31\<close>, and so does the model.
\<close>

definition int_of_double :: "double \<Rightarrow> int" where
  "int_of_double d =
     (case d of
        Finite x \<Rightarrow>
          (let t = (if 0 \<le> x then \<lfloor>x\<rfloor> else \<lceil>x\<rceil>)
           in if - (2 ^ 31) \<le> t \<and> t < 2 ^ 31 then t else - (2 ^ 31))
      | _ \<Rightarrow> - (2 ^ 31))"

text \<open>\<open>pow(0.5, n)\<close> for the small non-negative integers the program passes.\<close>

definition pow_half :: "nat \<Rightarrow> double" where
  "pow_half n = Finite ((1 / 2) ^ n)"

section \<open>Program state\<close>

datatype processor_type = AMD | INTEL

record softc =
  fd :: int
  last :: double

text \<open>One constructor for each output statement of the program.\<close>

datatype event =
    Printf_unsupported_cpu u_int u_int
  | Printf_vendor_not_implemented string
  | Perror string
  | Printf_did_you_remember
  | Printf_threads_cpus nat nat
  | Printf_energy_units_amd nat
  | Printf_energy_units_intel double
  | Printf_plain double
  | Printf_pkg double
  | Printf_core_sum double
  | Printf_newline
  | Printf_dram double
  | Printf_rule
  | Printf_core_label nat
  | Printf_core double
  | Usage

text \<open>
  The globals of the program, the static local \<open>first\<close> of \<open>read_power\<close>, the local
  \<open>timeo\<close> of \<open>main\<close>, the two output streams and the arguments of the calls of
  \<open>sleep\<close>.  The globals \<open>cpu_high\<close>, \<open>cpu_id\<close>, \<open>cpu_procinfo\<close>, \<open>cpu_feature\<close> and
  \<open>cpu_feature2\<close> are only written, never read, and are left out.  \<open>alloc\<close> is the array
  that \<open>softc\<close> points to; the null pointer is the empty array.
\<close>

record state =
  cpu_vendor :: string
  cpu_family :: u_int
  cpu_model :: u_int
  cpu_count :: nat
  share_count :: nat
  amd_energy_units :: nat
  energy_units :: double
  dram_units :: double
  scale :: double
  verbose :: nat
  pkg_msr :: u_int
  core_msr :: u_int
  dram_msr :: u_int
  alloc :: "softc list"
  cpu :: processor_type
  first :: bool
  timeo :: int
  out :: "event list"
  err :: "event list"
  slept :: "nat list"

definition initial_state :: state where
  "initial_state =
     \<lparr>cpu_vendor = [], cpu_family = 0, cpu_model = 0, cpu_count = 0, share_count = 0,
      amd_energy_units = 0, energy_units = Finite 0, dram_units = Finite 0,
      scale = Finite 1, verbose = 0, pkg_msr = 0, core_msr = 0, dram_msr = 0,
      alloc = [], cpu = AMD, first = True, timeo = 1, out = [], err = [], slept = []\<rparr>"

text \<open>
  A run stops by \<open>exit\<close> with a status, or by an access to the array \<open>softc\<close> at an index
  that was not allocated, which C leaves undefined.  Either way the state reached is kept.
\<close>

datatype fault = Exit nat | Out_of_bounds nat

type_synonym result = "(fault \<times> state) + state"

definition result_state :: "result \<Rightarrow> state" where
  "result_state r = (case r of Inl (e, s) \<Rightarrow> s | Inr s \<Rightarrow> s)"

section \<open>The machine the program runs on\<close>

record cpuid_regs =
  eax :: u_int
  ebx :: u_int
  ecx :: u_int
  edx :: u_int

text \<open>
  What the program obtains from outside: the \<open>cpuid\<close> instruction, \<open>sysconf\<close>, \<open>calloc\<close>,
  \<open>open\<close> on the device of a logical processor (\<open>- 1\<close> on failure) and the read of a
  register through a descriptor (\<open>None\<close> when the read fails or is short).
\<close>

type_synonym rdmsr = "int \<Rightarrow> u_int \<Rightarrow> uint64_t option"

record machine =
  do_cpuid :: "u_int \<Rightarrow> cpuid_regs"
  cpuid_count :: "u_int \<Rightarrow> u_int \<Rightarrow> cpuid_regs"
  nprocessors_conf :: int
  calloc_null :: bool
  open_dev :: "nat \<Rightarrow> int"
  read_msr0 :: rdmsr

section \<open>\<open>identify_cpu\<close>: classification\<close>

definition CPUID_TO_MODEL :: "u_int \<Rightarrow> u_int" where
  "CPUID_TO_MODEL w = drop_bit 4 (w AND 0x000000f0) OR drop_bit 12 (w AND 0x000f0000)"

definition CPUID_TO_FAMILY :: "u_int \<Rightarrow> u_int" where
  "CPUID_TO_FAMILY w = drop_bit 8 (w AND 0x00000f00) + drop_bit 20 (w AND 0x0ff00000)"

definition AMD_ENERGY_CORE_MSR :: u_int where "AMD_ENERGY_CORE_MSR = 0xC001029A"
definition AMD_ENERGY_PKG_MSR :: u_int where "AMD_ENERGY_PKG_MSR = 0xC001029B"
definition AMD_ENERGY_PWR_UNIT_MSR :: u_int where "AMD_ENERGY_PWR_UNIT_MSR = 0xC0010299"
definition AMD_ENERGY_UNIT_MASK :: uint64_t where "AMD_ENERGY_UNIT_MASK = 0x01F00"
definition INTEL_ENERGY_PKG_MSR :: u_int where "INTEL_ENERGY_PKG_MSR = 0x611"
definition INTEL_ENERGY_DRAM_MSR :: u_int where "INTEL_ENERGY_DRAM_MSR = 0x619"
definition INTEL_ENERGY_PWR_UNIT_MSR :: u_int where "INTEL_ENERGY_PWR_UNIT_MSR = 0x606"

text \<open>The four bytes of a register in memory order (x86 is little-endian).\<close>

definition word_bytes :: "u_int \<Rightarrow> nat list" where
  "word_bytes w =
     [unat (w AND 0xff), unat (drop_bit 8 w AND 0xff),
      unat (drop_bit 16 w AND 0xff), unat (drop_bit 24 w AND 0xff)]"

text \<open>
  \<open>cpu_vendor\<close> receives \<open>ebx\<close>, \<open>edx\<close>, \<open>ecx\<close> of leaf 0 and a terminating zero at
  index 12.  As a C string it ends at its first zero byte.
\<close>

definition vendor_string :: "cpuid_regs \<Rightarrow> string" where
  "vendor_string r =
     map char_of
       (takeWhile (\<lambda>b. b \<noteq> 0) (word_bytes (ebx r) @ word_bytes (edx r) @ word_bytes (ecx r)))"

definition unsupported_cpu :: "state \<Rightarrow> result" where
  "unsupported_cpu s =
     Inl (Exit 1, s\<lparr>out := out s @ [Printf_unsupported_cpu (cpu_family s) (cpu_model s)]\<rparr>)"

text \<open>
  Lines 190 to 279 of \<open>identify_cpu\<close>.  \<open>strncmp\<close> over the 20 bytes of \<open>cpu_vendor\<close>
  compares the two C strings.
\<close>

definition classify_cpu :: "machine \<Rightarrow> state \<Rightarrow> result" where
  "classify_cpu m s0 =
     (let regs0 = do_cpuid m 0;
          regs1 = do_cpuid m 1;
          s = s0\<lparr>cpu_vendor := vendor_string regs0,
                 cpu_family := CPUID_TO_FAMILY (eax regs1),
                 cpu_model := CPUID_TO_MODEL (eax regs1)\<rparr>
      in if cpu_vendor s = ''AuthenticAMD'' then
           (let a = s\<lparr>cpu := AMD, pkg_msr := AMD_ENERGY_PKG_MSR,
                      core_msr := AMD_ENERGY_CORE_MSR\<rparr>
            in if cpu_family a = 0x17 then
                 (if cpu_model a = 0x8 \<or> cpu_model a = 0x31 then Inr a
                  else unsupported_cpu a)
               else if cpu_family a = 0x19 then
                 (if cpu_model a = 0x01 \<or> cpu_model a = 0x30 \<or> cpu_model a = 0x10
                     \<or> cpu_model a = 0x11 \<or> cpu_model a = 0xa0 \<or> cpu_model a = 0x19
                  then Inr a
                  else unsupported_cpu a)
               else if cpu_family a = 0x1a then
                 (if cpu_model a = 0x02 \<or> cpu_model a = 0x10 \<or> cpu_model a = 0x11
                  then Inr a
                  else unsupported_cpu a)
               else unsupported_cpu a)
         else if cpu_vendor s = ''GenuineIntel'' then
           (let i = s\<lparr>cpu := INTEL\<rparr>
            in if cpu_family i \<noteq> 0x6 then unsupported_cpu i
               else Inr (i\<lparr>pkg_msr := INTEL_ENERGY_PKG_MSR,
                           dram_msr := INTEL_ENERGY_DRAM_MSR\<rparr>))
         else Inl (Exit 1, s\<lparr>out := out s @ [Printf_vendor_not_implemented (cpu_vendor s)]\<rparr>))"

section \<open>\<open>identify_cpu\<close>: topology and allocation\<close>

text \<open>
  \<open>sysconf\<close> returns a \<open>long\<close>; the division is the truncating division of C on \<open>long\<close>
  (the divisor is between 1 and 256), and the quotient is stored in a \<open>u_int\<close>.
\<close>

definition c_div :: "int \<Rightarrow> int \<Rightarrow> int" where
  "c_div a b = sgn a * sgn b * (\<bar>a\<bar> div \<bar>b\<bar>)"

definition share_count_of :: "cpuid_regs \<Rightarrow> nat" where
  "share_count_of r = unat ((drop_bit 8 (ebx r) AND 0xff) + 1)"

definition cpu_count_of :: "int \<Rightarrow> nat \<Rightarrow> nat" where
  "cpu_count_of p sc = nat (c_div p (int sc) mod 2 ^ 32)"

text \<open>Lines 280 to 287: the topology leaf, the two counts, and \<open>calloc\<close>.\<close>

definition resolve_topology :: "machine \<Rightarrow> state \<Rightarrow> result" where
  "resolve_topology m s0 =
     (let regs = cpuid_count m 0x8000001e 0;
          sc = share_count_of regs;
          s = s0\<lparr>share_count := sc, cpu_count := cpu_count_of (nprocessors_conf m) sc\<rparr>
      in if calloc_null m then Inl (Exit 1, s\<lparr>err := err s @ [Perror ''malloc'']\<rparr>)
         else Inr (s\<lparr>alloc := replicate (u32_add (cpu_count s) 1)
                                   \<lparr>fd = 0, last = Finite 0\<rparr>\<rparr>))"

section \<open>\<open>open_msrs\<close>\<close>

definition and_then :: "result \<Rightarrow> (state \<Rightarrow> result) \<Rightarrow> result" where
  "and_then r f = (case r of Inl e \<Rightarrow> Inl e | Inr s \<Rightarrow> f s)"

text \<open>
  Lines 165 to 180: the slot \<open>softc[core]\<close> receives the descriptor of the device of
  logical processor \<open>i * share_count\<close>.  The diagnostics are those of the Linux build.
\<close>

definition open_slot :: "machine \<Rightarrow> nat \<Rightarrow> nat \<Rightarrow> state \<Rightarrow> result" where
  "open_slot m core i s =
     (if length (alloc s) \<le> core then Inl (Out_of_bounds core, s)
      else
        (let d = open_dev m (u32_mul i (share_count s));
             s' = s\<lparr>alloc := (alloc s)[core := (alloc s ! core)\<lparr>fd := d\<rparr>]\<rparr>
         in if d = - 1
            then Inl (Exit 1, s'\<lparr>err := err s' @ [Perror ''open''],
                                  out := out s' @ [Printf_did_you_remember]\<rparr>)
            else Inr s'))"

fun open_msrs_loop :: "machine \<Rightarrow> nat list \<Rightarrow> state \<Rightarrow> result" where
  "open_msrs_loop m [] s = Inr s"
| "open_msrs_loop m (core # cores) s =
     (if cpu_count s \<le> core
      then and_then (open_slot m core 0 s) (open_msrs_loop m cores)
      else if cpu s = INTEL \<and> core \<noteq> 0 then open_msrs_loop m cores s
      else and_then (open_slot m core core s) (open_msrs_loop m cores))"

definition open_msrs :: "machine \<Rightarrow> state \<Rightarrow> result" where
  "open_msrs m s = open_msrs_loop m [0..<u32_add (cpu_count s) 2] s"

section \<open>\<open>identify_cpu\<close>: power units\<close>

definition read_msr :: "rdmsr \<Rightarrow> softc \<Rightarrow> u_int \<Rightarrow> state \<Rightarrow> (fault \<times> state) + uint64_t" where
  "read_msr rd sc reg s =
     (case rd (fd sc) reg of
        None \<Rightarrow> Inl (Exit 1, s\<lparr>err := err s @ [Perror ''rdmsr:pread'']\<rparr>)
      | Some data \<Rightarrow> Inr data)"

definition amd_units_of :: "uint64_t \<Rightarrow> nat" where
  "amd_units_of data = unat (ucast (drop_bit 8 (data AND AMD_ENERGY_UNIT_MASK)) :: u_int)"

definition intel_units_of :: "uint64_t \<Rightarrow> double" where
  "intel_units_of data = pow_half (unat (drop_bit 8 data AND 0x1f))"

text \<open>Lines 289 to 297: one read of the power-unit register through \<open>softc[0]\<close>.\<close>

definition read_units :: "machine \<Rightarrow> state \<Rightarrow> result" where
  "read_units m s =
     (if alloc s = [] then Inl (Out_of_bounds 0, s)
      else
        (let sc = alloc s ! 0
         in if cpu s = AMD then
              (case read_msr (read_msr0 m) sc AMD_ENERGY_PWR_UNIT_MSR s of
                 Inl e \<Rightarrow> Inl e
               | Inr data \<Rightarrow> Inr (s\<lparr>amd_energy_units := amd_units_of data\<rparr>))
            else
              (case read_msr (read_msr0 m) sc INTEL_ENERGY_PWR_UNIT_MSR s of
                 Inl e \<Rightarrow> Inl e
               | Inr data \<Rightarrow>
                   Inr (s\<lparr>energy_units := intel_units_of data, dram_units := pow_half 16\<rparr>))))"

text \<open>Lines 298 to 305.\<close>

definition print_banner :: "state \<Rightarrow> state" where
  "print_banner s =
     (if 1 < verbose s
      then s\<lparr>out := out s @
               [Printf_threads_cpus (u32_mul (cpu_count s) (share_count s)) (cpu_count s),
                if cpu s = AMD then Printf_energy_units_amd (amd_energy_units s)
                else Printf_energy_units_intel (energy_units s)]\<rparr>
      else s)"

definition identify_cpu :: "machine \<Rightarrow> state \<Rightarrow> result" where
  "identify_cpu m s =
     and_then (classify_cpu m s) (\<lambda>s1.
     and_then (resolve_topology m s1) (\<lambda>s2.
     and_then (open_msrs m s2) (\<lambda>s3.
     and_then (read_units m s3) (\<lambda>s4. Inr (print_banner s4)))))"

section \<open>\<open>read_power\<close>\<close>

text \<open>
  \<open>1 << amd_energy_units\<close> is a shift of the \<open>int\<close> constant 1.  For a count of 31 the
  result does not fit an \<open>int\<close>; the model takes the two's complement value of the 32-bit
  pattern, as the x86 shift does.
\<close>

definition int_shl1 :: "nat \<Rightarrow> int" where
  "int_shl1 n = sint (push_bit n (1 :: 32 word))"

definition amd_add_power :: "state \<Rightarrow> uint64_t \<Rightarrow> double" where
  "amd_add_power s input =
     ddiv (dmul (double_of_uint64 input) (Finite 1000000))
          (double_of_int (int_shl1 (amd_energy_units s)))"

definition intel_add_power :: "uint64_t \<Rightarrow> double \<Rightarrow> double" where
  "intel_add_power input units = dmul (double_of_uint64 input) units"

text \<open>Lines 346 to 352: the register that is read for a slot.\<close>

definition msr_of :: "state \<Rightarrow> nat \<Rightarrow> u_int" where
  "msr_of s core =
     (if core = cpu_count s then pkg_msr s
      else if core = u32_add (cpu_count s) 1 then dram_msr s
      else core_msr s)"

text \<open>Lines 353 to 360: the conversion of a raw reading.\<close>

definition watts_of :: "state \<Rightarrow> nat \<Rightarrow> uint64_t \<Rightarrow> double" where
  "watts_of s core data =
     (if cpu s = AMD then ddiv (amd_add_power s data) (Finite 1000000)
      else intel_add_power data (if core = cpu_count s then energy_units s else dram_units s))"

text \<open>Lines 366 to 389: what one iteration prints.\<close>

definition print_delta :: "state \<Rightarrow> nat \<Rightarrow> nat \<Rightarrow> double \<Rightarrow> double \<Rightarrow> event list" where
  "print_delta s mx core delta core_sum =
     (if core = cpu_count s then
        [if verbose s = 0 then Printf_plain (dmul delta (scale s))
         else Printf_pkg (dmul delta (scale s))]
        @ (if verbose s \<noteq> 0 \<and> amd_energy_units s \<noteq> 0
           then [Printf_core_sum (dmul core_sum (scale s))] else [])
        @ (if core = u32_sub mx 1 then [Printf_newline] else [])
      else if verbose s \<noteq> 0 \<and> core = u32_add (cpu_count s) 1 then
        [Printf_dram (dmul delta (scale s))]
        @ (if core = u32_sub mx 1 then [Printf_newline] else [])
      else if verbose s \<noteq> 0 \<and> amd_energy_units s \<noteq> 0 then
        (if core = 0 then [Printf_rule] else [])
        @ (if core mod 8 = 0 then [Printf_core_label core] else [])
        @ [Printf_core (dmul delta (scale s))]
        @ (if core mod 8 = 7 \<or> core = u32_sub (cpu_count s) 1 then [Printf_newline] else [])
        @ (if core = u32_sub (cpu_count s) 1 then [Printf_rule] else [])
      else [])"

text \<open>
  One iteration of the loop of \<open>read_power\<close> (lines 345 to 390) for slot \<open>core\<close>, with the
  local \<open>core_sum\<close> passed in and returned.
\<close>

definition read_power_step ::
  "rdmsr \<Rightarrow> nat \<Rightarrow> nat \<Rightarrow> double \<times> state \<Rightarrow> (fault \<times> state) + (double \<times> state)" where
  "read_power_step rd mx core cs =
     (let core_sum = fst cs; s = snd cs
      in if length (alloc s) \<le> core then Inl (Out_of_bounds core, s)
         else
           (let sc = alloc s ! core
            in case read_msr rd sc (msr_of s core) s of
                 Inl e \<Rightarrow> Inl e
               | Inr data \<Rightarrow>
                   (let watts = watts_of s core data;
                        delta = dsub watts (last sc);
                        s' = s\<lparr>alloc := (alloc s)[core := sc\<lparr>last := watts\<rparr>]\<rparr>
                    in if first s \<and> verbose s < 2 then Inr (core_sum, s')
                       else Inr (dadd core_sum delta,
                                 s'\<lparr>out := out s' @ print_delta s mx core delta core_sum\<rparr>))))"

fun read_power_loop ::
  "rdmsr \<Rightarrow> nat \<Rightarrow> nat list \<Rightarrow> double \<times> state \<Rightarrow> (fault \<times> state) + (double \<times> state)" where
  "read_power_loop rd mx [] cs = Inr cs"
| "read_power_loop rd mx (core # cores) cs =
     (case read_power_step rd mx core cs of
        Inl e \<Rightarrow> Inl e
      | Inr cs' \<Rightarrow> read_power_loop rd mx cores cs')"

definition first_core_of :: "state \<Rightarrow> nat" where
  "first_core_of s = (if verbose s \<noteq> 0 \<and> core_msr s \<noteq> 0 then 0 else cpu_count s)"

definition max_of :: "state \<Rightarrow> nat" where
  "max_of s =
     (if verbose s \<noteq> 0 \<and> core_msr s \<noteq> 0 then u32_add (cpu_count s) 1
      else if verbose s \<noteq> 0 \<and> dram_msr s \<noteq> 0 then u32_add (u32_add (cpu_count s) 1) 1
      else u32_add (cpu_count s) 1)"

definition read_power :: "rdmsr \<Rightarrow> state \<Rightarrow> result" where
  "read_power rd s =
     (case read_power_loop rd (max_of s) [first_core_of s..<max_of s] (Finite 0, s) of
        Inl e \<Rightarrow> Inl e
      | Inr cs \<Rightarrow> Inr ((snd cs)\<lparr>first := False\<rparr>))"

section \<open>\<open>main\<close>\<close>

text \<open>
  The option loop of \<open>main\<close> over the values that \<open>getopt\<close> returns before \<open>- 1\<close>:
  \<open>v\<close> for the option of the program, another character for anything else.
\<close>

fun getopt_loop :: "char list \<Rightarrow> state \<Rightarrow> state" where
  "getopt_loop [] s = s"
| "getopt_loop (c # cs) s =
     (if c = CHR ''v'' then getopt_loop cs (s\<lparr>verbose := verbose s + 1\<rparr>)
      else getopt_loop cs (s\<lparr>err := err s @ [Usage]\<rparr>))"

text \<open>
  Lines 405 to 424.  \<open>arg\<close> is the value of \<open>atof\<close> on the first positional argument,
  \<open>None\<close> when there is none.
\<close>

definition main_args :: "char list \<Rightarrow> double option \<Rightarrow> state" where
  "main_args opts arg =
     (let s = getopt_loop opts initial_state;
          s1 = (case arg of None \<Rightarrow> s | Some d \<Rightarrow> s\<lparr>timeo := int_of_double d\<rparr>)
      in s1\<lparr>scale := ddiv (Finite 1) (double_of_int (timeo s1))\<rparr>)"

text \<open>
  The endless loop of \<open>main\<close>, run for as many iterations as register readers are
  given.  \<open>sleep\<close> takes an \<open>unsigned int\<close>.
\<close>

fun main_loop :: "rdmsr list \<Rightarrow> state \<Rightarrow> result" where
  "main_loop [] s = Inr s"
| "main_loop (rd # rds) s =
     and_then (read_power rd s)
       (\<lambda>s'. main_loop rds (s'\<lparr>slept := slept s' @ [nat (timeo s' mod 2 ^ 32)]\<rparr>))"

definition main :: "machine \<Rightarrow> char list \<Rightarrow> double option \<Rightarrow> rdmsr list \<Rightarrow> result" where
  "main m opts arg rds = and_then (identify_cpu m (main_args opts arg)) (main_loop rds)"

section \<open>Reference definitions and example inputs\<close>

text \<open>The supported processors as one table, from the case labels of \<open>identify_cpu\<close>.\<close>

definition amd_allow_list :: "(u_int \<times> u_int) list" where
  "amd_allow_list =
     [(0x17, 0x8), (0x17, 0x31),
      (0x19, 0x01), (0x19, 0x30), (0x19, 0x10), (0x19, 0x11), (0x19, 0xa0), (0x19, 0x19),
      (0x1a, 0x02), (0x1a, 0x10), (0x1a, 0x11)]"

definition supported_cpu :: "string \<Rightarrow> u_int \<Rightarrow> u_int \<Rightarrow> bool" where
  "supported_cpu v f mo =
     (v = ''AuthenticAMD'' \<and> (f, mo) \<in> set amd_allow_list \<or> v = ''GenuineIntel'' \<and> f = 0x6)"

text \<open>
  An AMD machine: leaf 0 spells \<open>AuthenticAMD\<close>, leaf 1 returns the signature \<open>sig\<close>,
  the topology leaf returns \<open>b\<close> in \<open>ebx\<close>, there are \<open>p\<close> logical processors, every
  device opens, and the power-unit register reads \<open>u\<close>.
\<close>

definition cpuid_example :: "u_int \<Rightarrow> u_int \<Rightarrow> cpuid_regs" where
  "cpuid_example sig leaf =
     (if leaf = 0 then \<lparr>eax = 0x10, ebx = 0x68747541, ecx = 0x444d4163, edx = 0x69746e65\<rparr>
      else \<lparr>eax = sig, ebx = 0, ecx = 0, edx = 0\<rparr>)"

definition machine_example :: "u_int \<Rightarrow> u_int \<Rightarrow> int \<Rightarrow> uint64_t \<Rightarrow> machine" where
  "machine_example sig b p u =
     \<lparr>do_cpuid = cpuid_example sig,
      cpuid_count = (\<lambda>leaf sub. \<lparr>eax = 0, ebx = b, ecx = 0, edx = 0\<rparr>),
      nprocessors_conf = p, calloc_null = False, open_dev = (\<lambda>n. 3 + int n),
      read_msr0 = (\<lambda>d reg. Some u)\<rparr>"



text \<open>
  The state in which the sampling loop starts has the verbosity, the interval, the scale
  and the error stream as the argument handling of \<open>main\<close> left them in \<open>a\<close>, and
  everything else as the identification of the processor set it up in \<open>s\<close>.
\<close>

definition configured :: "state \<Rightarrow> state \<Rightarrow> state" where
  "configured a s = s\<lparr>verbose := verbose a, timeo := timeo a, scale := scale a, err := err a\<rparr>"

text \<open>
  States as they are once the program samples: an AMD processor with \<open>n\<close> physical
  units, unit exponent \<open>u\<close> and verbosity \<open>v\<close>, and an Intel processor with one
  physical unit and verbosity \<open>v\<close>.  The array has \<open>cpu_count + 1\<close> slots, as allocated.
\<close>

definition amd_example :: "nat \<Rightarrow> nat \<Rightarrow> nat \<Rightarrow> state" where
  "amd_example n u v =
     initial_state\<lparr>cpu := AMD, cpu_count := n, share_count := 1, amd_energy_units := u,
       verbose := v, pkg_msr := AMD_ENERGY_PKG_MSR, core_msr := AMD_ENERGY_CORE_MSR,
       alloc := map (\<lambda>i. \<lparr>fd = 3 + int i, last = Finite 0\<rparr>) [0..<n + 1]\<rparr>"

definition intel_example :: "nat \<Rightarrow> state" where
  "intel_example v =
     initial_state\<lparr>cpu := INTEL, cpu_count := 1, share_count := 1, verbose := v,
       pkg_msr := INTEL_ENERGY_PKG_MSR, dram_msr := INTEL_ENERGY_DRAM_MSR,
       energy_units := pow_half 10, dram_units := pow_half 16,
       alloc := [\<lparr>fd = 3, last = Finite 0\<rparr>, \<lparr>fd = 4, last = Finite 0\<rparr>]\<rparr>"

text \<open>A register reader that returns the same value for every register.\<close>

definition constant_reader :: "uint64_t \<Rightarrow> rdmsr" where
  "constant_reader v = (\<lambda>d reg. Some v)"

text \<open>
  What \<open>read_power\<close> leaves alone: every global except the array, the flag
  \<open>first\<close> and the two streams.
\<close>

definition unchanged_config :: "state \<Rightarrow> state \<Rightarrow> bool" where
  "unchanged_config s s' =
     (s' = s\<lparr>alloc := alloc s', first := first s', out := out s', err := err s'\<rparr>)"

definition step_state :: "(fault \<times> state) + (double \<times> state) \<Rightarrow> state" where
  "step_state r = (case r of Inl (e, s) \<Rightarrow> s | Inr (c, s) \<Rightarrow> s)"

text \<open>
  A state, a result and the result of an iteration without what was written to the error
  stream; two results are the same apart from that stream when they agree without it.
\<close>

definition erase_err :: "state \<Rightarrow> state" where
  "erase_err s = s\<lparr>err := []\<rparr>"

definition erase_result :: "result \<Rightarrow> result" where
  "erase_result r = (case r of Inl (e, s) \<Rightarrow> Inl (e, erase_err s) | Inr s \<Rightarrow> Inr (erase_err s))"

definition erase_step ::
  "(fault \<times> state) + (double \<times> state) \<Rightarrow> (fault \<times> state) + (double \<times> state)" where
  "erase_step r =
     (case r of Inl (e, s) \<Rightarrow> Inl (e, erase_err s) | Inr (c, s) \<Rightarrow> Inr (c, erase_err s))"

definition same_apart_from_err :: "result \<Rightarrow> result \<Rightarrow> bool" where
  "same_apart_from_err r r' = (erase_result r = erase_result r')"

text \<open>
  The events and the sum of a run of the loop of \<open>read_power\<close> that prints, from the
  printing function \<open>pd\<close> of an iteration and the delta \<open>d c\<close> of each slot.
\<close>

fun loop_events ::
  "(nat \<Rightarrow> double \<Rightarrow> double \<Rightarrow> event list) \<Rightarrow> (nat \<Rightarrow> double) \<Rightarrow> nat list \<Rightarrow> double \<Rightarrow> event list" where
  "loop_events pd d [] acc = []"
| "loop_events pd d (c # cs) acc = pd c (d c) acc @ loop_events pd d cs (dadd acc (d c))"

fun loop_sum :: "(nat \<Rightarrow> double) \<Rightarrow> nat list \<Rightarrow> double \<Rightarrow> double" where
  "loop_sum d [] acc = acc"
| "loop_sum d (c # cs) acc = loop_sum d cs (dadd acc (d c))"

text \<open>
  A state in which \<open>read_power\<close> stays inside the array: the array has the
  \<open>cpu_count + 1\<close> slots that \<open>identify_cpu\<close> allocates, the counts do not wrap, and the
  iteration for the DRAM register (verbosity at least 1, no core register, a DRAM
  register) is not taken.  \<open>readings rd s r\<close>: the reader \<open>rd\<close> returns \<open>r c\<close> for
  every slot \<open>c\<close> that \<open>read_power\<close> then reads.
\<close>

definition sampling_state :: "state \<Rightarrow> bool" where
  "sampling_state s =
     (length (alloc s) = cpu_count s + 1 \<and> cpu_count s + 2 < 2 ^ 32
      \<and> \<not> (verbose s \<noteq> 0 \<and> core_msr s = 0 \<and> dram_msr s \<noteq> 0))"

definition readings :: "rdmsr \<Rightarrow> state \<Rightarrow> (nat \<Rightarrow> uint64_t) \<Rightarrow> bool" where
  "readings rd s r =
     (\<forall>c \<in> set [first_core_of s..<cpu_count s + 1].
        rd (fd (alloc s ! c)) (msr_of s c) = Some (r c))"

text \<open>What such a tick prints, from the readings.\<close>

definition tick_events :: "state \<Rightarrow> (nat \<Rightarrow> uint64_t) \<Rightarrow> event list" where
  "tick_events s r =
     (if first s \<and> verbose s < 2 then []
      else loop_events (print_delta s (cpu_count s + 1))
             (\<lambda>c. dsub (watts_of s c (r c)) (last (alloc s ! c)))
             [first_core_of s..<cpu_count s + 1] (Finite 0))"

text \<open>The values that a list of events reports, by kind.\<close>

definition pkg_values :: "event list \<Rightarrow> double list" where
  "pkg_values es =
     concat (map (\<lambda>e. case e of Printf_pkg v \<Rightarrow> [v] | Printf_plain v \<Rightarrow> [v] | _ \<Rightarrow> []) es)"

definition core_values :: "event list \<Rightarrow> double list" where
  "core_values es = concat (map (\<lambda>e. case e of Printf_core v \<Rightarrow> [v] | _ \<Rightarrow> []) es)"

definition core_labels :: "event list \<Rightarrow> nat list" where
  "core_labels es = concat (map (\<lambda>e. case e of Printf_core_label n \<Rightarrow> [n] | _ \<Rightarrow> []) es)"

section \<open>Properties of the classification\<close>

lemma vendor_string_example: "vendor_string (cpuid_example sig 0) = ''AuthenticAMD''"
  by (simp add: vendor_string_def cpuid_example_def word_bytes_def char_of_def bit_Suc_0_iff)

lemma signature_19_30:
  "CPUID_TO_FAMILY 0x00A30F00 = 0x19 \<and> CPUID_TO_MODEL 0x00A30F00 = 0x30"
  by (simp add: CPUID_TO_FAMILY_def CPUID_TO_MODEL_def)

lemma signature_19_02:
  "CPUID_TO_FAMILY 0x00A00F20 = 0x19 \<and> CPUID_TO_MODEL 0x00A00F20 = 0x02"
  by (simp add: CPUID_TO_FAMILY_def CPUID_TO_MODEL_def)

text \<open>
  C6.  \<open>classify_cpu\<close> returns normally exactly for the vendor \<open>AuthenticAMD\<close> with a
  family and model of the table, and for the vendor \<open>GenuineIntel\<close> with family 6 and any
  model; for every other vendor, family or model it stops with exit status 1.  The vendor,
  family and model are those of the identification leaves 0 and 1.
\<close>

theorem classify_cpu_exact:
  "(case classify_cpu m s of
      Inr s' \<Rightarrow>
        supported_cpu (cpu_vendor s') (cpu_family s') (cpu_model s')
        \<and> cpu s' = (if cpu_vendor s' = ''AuthenticAMD'' then AMD else INTEL)
    | Inl (e, s') \<Rightarrow>
        e = Exit 1 \<and> \<not> supported_cpu (cpu_vendor s') (cpu_family s') (cpu_model s'))
   \<and> cpu_vendor (result_state (classify_cpu m s)) = vendor_string (do_cpuid m 0)
   \<and> cpu_family (result_state (classify_cpu m s)) = CPUID_TO_FAMILY (eax (do_cpuid m 1))
   \<and> cpu_model (result_state (classify_cpu m s)) = CPUID_TO_MODEL (eax (do_cpuid m 1))"
  by (simp add: classify_cpu_def Let_def unsupported_cpu_def supported_cpu_def
      amd_allow_list_def result_state_def)

theorem classify_cpu_exact_witness:
  "(\<exists>s'. classify_cpu (machine_example 0x00A30F00 0 4 0) initial_state = Inr s')
   \<and> (\<exists>s'. classify_cpu (machine_example 0x00A00F20 0 4 0) initial_state = Inl (Exit 1, s'))"
proof -
  let ?a = "classify_cpu (machine_example 0x00A30F00 0 4 0) initial_state"
  let ?b = "classify_cpu (machine_example 0x00A00F20 0 4 0) initial_state"
  have va: "cpu_vendor (result_state ?a) = ''AuthenticAMD''"
    and fa: "cpu_family (result_state ?a) = 0x19" and ma: "cpu_model (result_state ?a) = 0x30"
    using classify_cpu_exact [of "machine_example 0x00A30F00 0 4 0" initial_state]
      vendor_string_example [of "0x00A30F00"] signature_19_30
    by (simp_all add: machine_example_def cpuid_example_def)
  have vb: "cpu_vendor (result_state ?b) = ''AuthenticAMD''"
    and fb: "cpu_family (result_state ?b) = 0x19" and mb: "cpu_model (result_state ?b) = 0x02"
    using classify_cpu_exact [of "machine_example 0x00A00F20 0 4 0" initial_state]
      vendor_string_example [of "0x00A00F20"] signature_19_02
    by (simp_all add: machine_example_def cpuid_example_def)
  have sa: "supported_cpu ''AuthenticAMD'' 0x19 0x30"
    by (simp add: supported_cpu_def amd_allow_list_def)
  have sb: "\<not> supported_cpu ''AuthenticAMD'' 0x19 0x02"
    by (simp add: supported_cpu_def amd_allow_list_def)
  have "\<exists>s'. ?a = Inr s'"
    using classify_cpu_exact [of "machine_example 0x00A30F00 0 4 0" initial_state] va fa ma sa
    by (cases ?a) (auto simp: result_state_def)
  moreover have "\<exists>s'. ?b = Inl (Exit 1, s')"
    using classify_cpu_exact [of "machine_example 0x00A00F20 0 4 0" initial_state] vb fb mb sb
    by (cases ?b) (auto simp: result_state_def)
  ultimately show ?thesis by simp
qed

section \<open>Properties of the topology\<close>

lemma nat_and_mask8: "(x::nat) AND 255 = x mod 2 ^ 8"
proof -
  have "(255::nat) = mask 8" by (simp add: mask_eq_exp_minus_1)
  then show ?thesis by (simp only: flip: take_bit_eq_mask) (simp add: take_bit_eq_mod)
qed

lemma nat_and_mask5: "(x::nat) AND 31 = x mod 2 ^ 5"
proof -
  have "(31::nat) = mask 5" by (simp add: mask_eq_exp_minus_1)
  then show ?thesis by (simp only: flip: take_bit_eq_mask) (simp add: take_bit_eq_mod)
qed

lemma and_ff: "unat ((w::u_int) AND 0xff) = unat w mod 2 ^ 8"
  by (simp add: unsigned_and_eq nat_and_mask8)

lemma share_count_of_field: "share_count_of r = (unat (ebx r) div 2 ^ 8) mod 2 ^ 8 + 1"
proof -
  let ?f = "drop_bit 8 (ebx r) AND 0xff"
  have f: "unat ?f = (unat (ebx r) div 2 ^ 8) mod 2 ^ 8"
    by (simp add: and_ff unat_drop_bit_eq drop_bit_eq_div unat_div)
  then have "unat ?f < 2 ^ 8" by simp
  then have "unat (?f + 1) = unat ?f + 1"
    by (simp add: unat_word_ariths)
  with f show ?thesis by (simp add: share_count_of_def)
qed

lemma c_div_nonneg: "0 \<le> a \<Longrightarrow> 0 < b \<Longrightarrow> c_div a b = a div b"
  by (cases "a = 0") (simp_all add: c_div_def)

lemma cpu_count_of_quotient:
  assumes "0 \<le> p" "p < 2 ^ 32" "0 < sc"
  shows "int (cpu_count_of p sc) = p div int sc"
proof -
  have "p div int sc \<le> p div 1" using assms
    by (intro zdiv_mono2) simp_all
  then have "p div int sc \<le> p" by simp
  moreover have "0 \<le> p div int sc" using assms by (simp add: pos_imp_zdiv_nonneg_iff)
  ultimately have "(p div int sc) mod 2 ^ 32 = p div int sc" using assms by simp
  then show ?thesis using assms by (simp add: cpu_count_of_def c_div_nonneg)
qed

text \<open>
  C8.  For a number \<open>p\<close> of configured logical processors (a count that fits the
  \<open>u_int\<close> it is stored in), the sharing factor is the 8-bit field at bits 8 to 15 of
  \<open>ebx\<close> of the topology leaf plus one, and the number of physical units is the integer
  quotient of \<open>p\<close> by the sharing factor.
\<close>

theorem cpu_count_is_quotient:
  assumes "0 \<le> nprocessors_conf m" and "nprocessors_conf m < 2 ^ 32"
  shows "share_count (result_state (resolve_topology m s))
           = (unat (ebx (cpuid_count m 0x8000001e 0)) div 2 ^ 8) mod 2 ^ 8 + 1
       \<and> int (cpu_count (result_state (resolve_topology m s)))
           = nprocessors_conf m div int (share_count (result_state (resolve_topology m s)))"
  using cpu_count_of_quotient [OF assms, of "share_count_of (cpuid_count m 0x8000001e 0)"]
  by (simp add: resolve_topology_def Let_def result_state_def share_count_of_field)

theorem cpu_count_is_quotient_witness:
  "share_count (result_state (resolve_topology (machine_example 0 0x100 7 0) initial_state)) = 2
   \<and> cpu_count (result_state (resolve_topology (machine_example 0 0x100 7 0) initial_state)) = 3
   \<and> share_count (result_state (resolve_topology (machine_example 0 0 7 0) initial_state)) = 1
   \<and> cpu_count (result_state (resolve_topology (machine_example 0 0 7 0) initial_state)) = 7"
proof -
  let ?r2 = "result_state (resolve_topology (machine_example 0 0x100 7 0) initial_state)"
  let ?r1 = "result_state (resolve_topology (machine_example 0 0 7 0) initial_state)"
  have a: "0 \<le> nprocessors_conf (machine_example 0 b 7 0)" for b
    by (simp add: machine_example_def)
  have b: "nprocessors_conf (machine_example 0 b 7 0) < 2 ^ 32" for b
    by (simp add: machine_example_def)
  have s2: "share_count ?r2 = 2" and c2: "int (cpu_count ?r2) = 7 div int (share_count ?r2)"
    using cpu_count_is_quotient [OF a b, of "0x100" initial_state]
    by (simp_all add: machine_example_def)
  have s1: "share_count ?r1 = 1" and c1: "int (cpu_count ?r1) = 7 div int (share_count ?r1)"
    using cpu_count_is_quotient [OF a b, of 0 initial_state]
    by (simp_all add: machine_example_def)
  have "int (cpu_count ?r2) = 3" unfolding c2 s2 by simp
  moreover have "int (cpu_count ?r1) = 7" unfolding c1 s1 by simp
  ultimately show ?thesis using s1 s2 by simp
qed

section \<open>What a tick leaves unchanged\<close>

lemma unchanged_config_refl: "unchanged_config s s"
  by (simp add: unchanged_config_def)

lemma unchanged_config_trans:
  "unchanged_config s t \<Longrightarrow> unchanged_config t u \<Longrightarrow> unchanged_config s u"
  unfolding unchanged_config_def
  by (cases s, cases t, cases u) simp

lemma unchanged_config_fields:
  assumes "unchanged_config s s'"
  shows "cpu_count s' = cpu_count s" "amd_energy_units s' = amd_energy_units s"
    "energy_units s' = energy_units s" "dram_units s' = dram_units s"
    "scale s' = scale s" "verbose s' = verbose s" "timeo s' = timeo s"
    "pkg_msr s' = pkg_msr s" "core_msr s' = core_msr s" "dram_msr s' = dram_msr s"
    "cpu s' = cpu s" "share_count s' = share_count s" "slept s' = slept s"
  using assms unfolding unchanged_config_def
  by (cases s, cases s', simp)+

lemma read_power_step_unchanged:
  "unchanged_config (snd cs) (step_state (read_power_step rd mx core cs))"
  by (simp add: read_power_step_def Let_def read_msr_def step_state_def unchanged_config_def
      split: option.split)

lemma read_power_step_first:
  "first (step_state (read_power_step rd mx core cs)) = first (snd cs)"
  by (simp add: read_power_step_def Let_def read_msr_def step_state_def split: option.split)

lemma read_power_loop_unchanged:
  "unchanged_config (snd cs) (step_state (read_power_loop rd mx cores cs))"
proof (induction cores arbitrary: cs)
  case Nil
  show ?case by (cases cs) (simp add: step_state_def unchanged_config_refl)
next
  case (Cons core cores)
  show ?case
  proof (cases "read_power_step rd mx core cs")
    case (Inl e)
    with read_power_step_unchanged [of cs rd mx core] show ?thesis by simp
  next
    case (Inr cs')
    with read_power_step_unchanged [of cs rd mx core]
    have "unchanged_config (snd cs) (snd cs')"
      by (cases cs') (simp add: step_state_def)
    with Cons.IH [of cs'] Inr show ?thesis
      by (simp add: unchanged_config_trans)
  qed
qed

lemma read_power_unchanged: "unchanged_config s (result_state (read_power rd s))"
proof -
  let ?r = "read_power_loop rd (max_of s) [first_core_of s..<max_of s] (Finite 0, s)"
  have u: "unchanged_config s (step_state ?r)"
    using read_power_loop_unchanged [of "(Finite 0, s)"] by simp
  show ?thesis
  proof (cases ?r)
    case (Inl e)
    with u show ?thesis by (cases e) (simp add: read_power_def result_state_def step_state_def)
  next
    case (Inr cs)
    with u have "unchanged_config s (snd cs)" by (cases cs) (simp add: step_state_def)
    then have "unchanged_config s ((snd cs)\<lparr>first := False\<rparr>)"
      unfolding unchanged_config_def by (cases s, cases "snd cs") simp
    with Inr show ?thesis by (simp add: read_power_def result_state_def)
  qed
qed

section \<open>Properties of the power units\<close>

lemma intel_units_field:
  "intel_units_of data = Finite ((1 / 2) ^ ((unat data div 2 ^ 8) mod 2 ^ 5))"
  by (simp add: intel_units_of_def pow_half_def unsigned_and_eq nat_and_mask5
      unat_drop_bit_eq drop_bit_eq_div unat_div)

lemma amd_units_field: "amd_units_of data = (unat data div 2 ^ 8) mod 2 ^ 5"
proof -
  have "drop_bit 8 (data AND AMD_ENERGY_UNIT_MASK) = drop_bit 8 data AND 0x1f"
    by (simp add: AMD_ENERGY_UNIT_MASK_def bit_eq_iff bit_simps)
  then have u: "unat (drop_bit 8 (data AND AMD_ENERGY_UNIT_MASK)) = (unat data div 2 ^ 8) mod 2 ^ 5"
    by (simp add: unsigned_and_eq nat_and_mask5 unat_drop_bit_eq drop_bit_eq_div unat_div)
  have "(unat data div 2 ^ 8) mod 2 ^ 5 < 2 ^ 5" by simp
  then have "(unat data div 2 ^ 8) mod 2 ^ 5 < 2 ^ 32" by (rule less_trans) simp
  then have "((unat data div 2 ^ 8) mod 2 ^ 5) mod 2 ^ 32 = (unat data div 2 ^ 8) mod 2 ^ 5"
    by (rule mod_less)
  then show ?thesis unfolding amd_units_of_def
    by (simp only: unsigned_ucast_eq u take_bit_eq_mod) simp
qed

lemma amd_units_lt: "amd_units_of data < 32"
  by (simp add: amd_units_field)

lemma main_loop_unchanged:
  "unchanged_config s ((result_state (main_loop rds s))\<lparr>slept := slept s\<rparr>)"
proof (induction rds arbitrary: s)
  case Nil
  show ?case by (simp add: result_state_def unchanged_config_def)
next
  case (Cons rd rds)
  show ?case
  proof (cases "read_power rd s")
    case (Inl e)
    obtain f t where e: "e = (f, t)" by (cases e)
    from Inl e read_power_unchanged [of s rd] have u: "unchanged_config s t"
      by (simp add: result_state_def)
    from unchanged_config_fields(13) [OF u] have "t\<lparr>slept := slept s\<rparr> = t"
      by (cases t) simp
    with Inl e u show ?thesis by (simp add: and_then_def result_state_def)
  next
    case (Inr s')
    let ?t = "s'\<lparr>slept := slept s' @ [nat (timeo s' mod 2 ^ 32)]\<rparr>"
    let ?r = "result_state (main_loop rds ?t)"
    from Inr read_power_unchanged [of s rd] have "unchanged_config s s'"
      by (simp add: result_state_def)
    with Cons.IH [of ?t] have "unchanged_config s (?r\<lparr>slept := slept s\<rparr>)"
      unfolding unchanged_config_def by (cases s, cases s', cases ?r) simp
    with Inr show ?thesis by (simp add: and_then_def)
  qed
qed

lemma main_loop_units:
  "amd_energy_units (result_state (main_loop rds s)) = amd_energy_units s"
  "energy_units (result_state (main_loop rds s)) = energy_units s"
  "dram_units (result_state (main_loop rds s)) = dram_units s"
  "timeo (result_state (main_loop rds s)) = timeo s"
  using unchanged_config_fields [OF main_loop_unchanged [of s rds]] by simp_all

text \<open>
  C7.  The power units are set by \<open>read_units\<close>, the part of \<open>identify_cpu\<close> that
  reads the power-unit register once through the first slot: on AMD the 5-bit field at
  bits 8 to 12 is stored as it is in \<open>amd_energy_units\<close>; on Intel \<open>energy_units\<close> is
  one half to the power of that field and \<open>dram_units\<close> is one half to the power 16
  whatever the register holds.  No number of iterations of the loop of \<open>main\<close> changes
  any of the three, also when the run stops on a fault.
\<close>

theorem power_units_fixed_at_startup:
  "(cpu s = AMD \<longrightarrow> alloc s \<noteq> [] \<longrightarrow>
      read_msr0 m (fd (alloc s ! 0)) AMD_ENERGY_PWR_UNIT_MSR = Some data \<longrightarrow>
      read_units m s = Inr (s\<lparr>amd_energy_units := (unat data div 2 ^ 8) mod 2 ^ 5\<rparr>))
   \<and> (cpu s = INTEL \<longrightarrow> alloc s \<noteq> [] \<longrightarrow>
      read_msr0 m (fd (alloc s ! 0)) INTEL_ENERGY_PWR_UNIT_MSR = Some data \<longrightarrow>
      read_units m s =
        Inr (s\<lparr>energy_units := Finite ((1 / 2) ^ ((unat data div 2 ^ 8) mod 2 ^ 5)),
               dram_units := Finite ((1 / 2) ^ 16)\<rparr>))
   \<and> amd_energy_units (result_state (main_loop rds s)) = amd_energy_units s
   \<and> energy_units (result_state (main_loop rds s)) = energy_units s
   \<and> dram_units (result_state (main_loop rds s)) = dram_units s"
  by (simp add: read_units_def read_msr_def Let_def amd_units_field intel_units_field
      pow_half_def main_loop_units)


theorem power_units_fixed_at_startup_witness:
  "read_units (machine_example 0 0 1 0x000A1003) (amd_example 1 0 0)
     = Inr ((amd_example 1 0 0)\<lparr>amd_energy_units := 16\<rparr>)
   \<and> read_units (machine_example 0 0 1 0x000A1003) (intel_example 0)
     = Inr ((intel_example 0)\<lparr>energy_units := Finite ((1 / 2) ^ 16),
                               dram_units := Finite ((1 / 2) ^ 16)\<rparr>)
   \<and> amd_energy_units (result_state (main_loop [constant_reader 5] (amd_example 1 16 0))) = 16"
proof -
  let ?m = "machine_example 0 0 1 0x000A1003"
  have f: "(unat (0x000A1003 :: uint64_t) div 2 ^ 8) mod 2 ^ 5 = 16" by simp
  have a: "cpu (amd_example 1 0 0) = AMD" "alloc (amd_example 1 0 0) \<noteq> []"
    "read_msr0 ?m d reg = Some 0x000A1003" for d reg
    by (simp_all add: amd_example_def initial_state_def machine_example_def)
  have i: "cpu (intel_example 0) = INTEL" "alloc (intel_example 0) \<noteq> []"
    by (simp_all add: intel_example_def initial_state_def)
  have u: "amd_energy_units (amd_example 1 16 0) = 16"
    by (simp add: amd_example_def initial_state_def)
  have "read_units ?m (amd_example 1 0 0)
          = Inr ((amd_example 1 0 0)\<lparr>amd_energy_units :=
                   (unat (0x000A1003 :: uint64_t) div 2 ^ 8) mod 2 ^ 5\<rparr>)"
    using power_units_fixed_at_startup [of "amd_example 1 0 0" ?m "0x000A1003" "[]"] a
    by blast
  then have A: "read_units ?m (amd_example 1 0 0)
          = Inr ((amd_example 1 0 0)\<lparr>amd_energy_units := 16\<rparr>)"
    by (simp only: f)
  have "read_units ?m (intel_example 0)
          = Inr ((intel_example 0)\<lparr>energy_units :=
                   Finite ((1 / 2) ^ ((unat (0x000A1003 :: uint64_t) div 2 ^ 8) mod 2 ^ 5)),
                   dram_units := Finite ((1 / 2) ^ 16)\<rparr>)"
    using power_units_fixed_at_startup [of "intel_example 0" ?m "0x000A1003" "[]"] a i
    by blast
  then have B: "read_units ?m (intel_example 0)
          = Inr ((intel_example 0)\<lparr>energy_units := Finite ((1 / 2) ^ 16),
                                    dram_units := Finite ((1 / 2) ^ 16)\<rparr>)"
    by (simp only: f)
  have "amd_energy_units (result_state (main_loop [constant_reader 5] (amd_example 1 16 0)))
          = amd_energy_units (amd_example 1 16 0)"
    using power_units_fixed_at_startup [of "amd_example 1 16 0" ?m "0x000A1003"
        "[constant_reader 5]"]
    by blast
  with u A B show ?thesis by (simp only:) 
qed

section \<open>The handle array\<close>

lemmas tick_defs = read_power_def max_of_def first_core_of_def read_power_step_def read_msr_def
  msr_of_def watts_of_def print_delta_def amd_add_power_def intel_add_power_def
  u32_add_def u32_sub_def u32_mul_def Let_def upt_conv_Cons

lemmas example_defs = amd_example_def intel_example_def initial_state_def constant_reader_def
  machine_example_def cpuid_example_def
  INTEL_ENERGY_PKG_MSR_def INTEL_ENERGY_DRAM_MSR_def AMD_ENERGY_PKG_MSR_def
  AMD_ENERGY_CORE_MSR_def

lemma open_msrs_loop_append:
  "open_msrs_loop m (xs @ ys) s = and_then (open_msrs_loop m xs s) (open_msrs_loop m ys)"
proof (induction xs arbitrary: s)
  case Nil
  show ?case by (simp add: and_then_def)
next
  case (Cons c xs)
  show ?case
    by (simp add: Cons.IH and_then_def split: sum.splits)
qed

lemma open_slot_in_bounds:
  assumes "open_dev m (u32_mul i (share_count s)) \<noteq> - 1" and "core < length (alloc s)"
  shows "\<exists>s'. open_slot m core i s = Inr s' \<and> cpu_count s' = cpu_count s
           \<and> share_count s' = share_count s \<and> cpu s' = cpu s
           \<and> length (alloc s') = length (alloc s)"
  using assms by (simp add: open_slot_def Let_def)

lemma open_msrs_loop_in_bounds:
  assumes "\<forall>n. open_dev m n \<noteq> - 1" and "\<forall>c \<in> set cores. c < length (alloc s)"
  shows "\<exists>s'. open_msrs_loop m cores s = Inr s' \<and> cpu_count s' = cpu_count s
           \<and> share_count s' = share_count s \<and> cpu s' = cpu s
           \<and> length (alloc s') = length (alloc s)"
  using assms(2)
proof (induction cores arbitrary: s)
  case Nil
  show ?case by simp
next
  case (Cons c cores)
  have skip: "\<exists>s'. open_msrs_loop m cores s = Inr s' \<and> cpu_count s' = cpu_count s
           \<and> share_count s' = share_count s \<and> cpu s' = cpu s
           \<and> length (alloc s') = length (alloc s)"
    using Cons.IH [of s] Cons.prems by simp
  have slot: "\<exists>s'. and_then (open_slot m c i s) (open_msrs_loop m cores) = Inr s'
           \<and> cpu_count s' = cpu_count s
           \<and> share_count s' = share_count s \<and> cpu s' = cpu s
           \<and> length (alloc s') = length (alloc s)" for i
  proof -
    from Cons.prems have "c < length (alloc s)" by simp
    with assms(1) obtain t where t: "open_slot m c i s = Inr t" "cpu_count t = cpu_count s"
      "share_count t = share_count s" "cpu t = cpu s" "length (alloc t) = length (alloc s)"
      using open_slot_in_bounds [of m i s c] by blast
    with Cons.IH [of t] Cons.prems show ?thesis by (simp add: and_then_def)
  qed
  show ?case
  proof (cases "cpu_count s \<le> c")
    case True
    then show ?thesis using slot [of 0] by simp
  next
    case False
    show ?thesis
    proof (cases "cpu s = INTEL \<and> c \<noteq> 0")
      case True
      with False have "open_msrs_loop m (c # cores) s = open_msrs_loop m cores s" by simp
      with skip show ?thesis by (simp only:)
    next
      case False
      with \<open>\<not> cpu_count s \<le> c\<close>
      have "open_msrs_loop m (c # cores) s = and_then (open_slot m c c s) (open_msrs_loop m cores)"
        by auto
      with slot [of c] show ?thesis by (simp only:)
    qed
  qed
qed

lemma open_msrs_overruns:
  assumes "\<forall>n. open_dev m n \<noteq> - 1" and "length (alloc s) = cpu_count s + 1"
    and "cpu_count s + 2 < 2 ^ 32"
  shows "\<exists>s'. open_msrs m s = Inl (Out_of_bounds (cpu_count s + 1), s')
           \<and> length (alloc s') = cpu_count s + 1 \<and> cpu_count s' = cpu_count s"
proof -
  let ?n = "cpu_count s"
  have b: "u32_add ?n 2 = ?n + 2" using assms(3) by (simp add: u32_add_def)
  have split: "[0..<?n + 2] = [0..<?n + 1] @ [?n + 1]" by simp
  have "\<forall>c \<in> set [0..<?n + 1]. c < length (alloc s)" using assms(2) by simp
  with assms(1) obtain t where t: "open_msrs_loop m [0..<?n + 1] s = Inr t"
    "cpu_count t = ?n" "length (alloc t) = length (alloc s)"
    using open_msrs_loop_in_bounds [of m "[0..<?n + 1]" s] by blast
  have "open_msrs_loop m [?n + 1] t = Inl (Out_of_bounds (?n + 1), t)"
    using t assms(2) by (simp add: open_slot_def and_then_def)
  with t assms(2) show ?thesis
    unfolding open_msrs_def b split open_msrs_loop_append by (simp add: and_then_def)
qed

lemma resolve_topology_allocates:
  assumes "\<not> calloc_null m" and "0 \<le> nprocessors_conf m" and "nprocessors_conf m < 2 ^ 32 - 2"
  shows "\<exists>s'. resolve_topology m s = Inr s' \<and> length (alloc s') = cpu_count s' + 1
           \<and> cpu_count s' + 2 < 2 ^ 32"
proof -
  let ?sc = "share_count_of (cpuid_count m 0x8000001e 0)"
  let ?n = "cpu_count_of (nprocessors_conf m) ?sc"
  have sc: "0 < ?sc" by (simp add: share_count_of_field)
  from assms(3) have lt: "nprocessors_conf m < 2 ^ 32" by simp
  have "nprocessors_conf m div int ?sc \<le> nprocessors_conf m div 1"
    using assms(2) sc by (intro zdiv_mono2) simp_all
  with cpu_count_of_quotient [OF assms(2) lt sc] assms(3)
  have "int ?n < 4294967294" by simp
  then have n: "?n + 2 < 2 ^ 32" by simp
  then have "u32_add ?n 1 = ?n + 1" by (simp add: u32_add_def)
  with n assms(1) show ?thesis by (simp add: resolve_topology_def Let_def)
qed

lemma identify_cpu_stops_in_open_msrs:
  assumes "classify_cpu m s = Inr s1" and "\<not> calloc_null m" and "\<forall>n. open_dev m n \<noteq> - 1"
    and "0 \<le> nprocessors_conf m" and "nprocessors_conf m < 2 ^ 32 - 2"
  shows "\<exists>s'. identify_cpu m s = Inl (Out_of_bounds (cpu_count s' + 1), s')
           \<and> length (alloc s') = cpu_count s' + 1"
proof -
  from resolve_topology_allocates [OF assms(2,4,5), of s1]
  obtain s2 where s2: "resolve_topology m s1 = Inr s2" "length (alloc s2) = cpu_count s2 + 1"
    "cpu_count s2 + 2 < 2 ^ 32" by blast
  from open_msrs_overruns [OF assms(3) s2(2,3)]
  obtain s' where s': "open_msrs m s2 = Inl (Out_of_bounds (cpu_count s2 + 1), s')"
    "length (alloc s') = cpu_count s2 + 1" "cpu_count s' = cpu_count s2" by blast
  with assms(1) s2(1) show ?thesis by (simp add: identify_cpu_def and_then_def)
qed

text \<open>
  The code violates C2.  For a supported processor, when \<open>calloc\<close> succeeds and every
  device opens, \<open>identify_cpu\<close> stops in \<open>open_msrs\<close> at slot \<open>cpu_count + 1\<close> of an array
  of \<open>cpu_count + 1\<close> slots: the loop of \<open>open_msrs\<close> runs up to \<open>cpu_count + 2\<close>, while
  \<open>identify_cpu\<close> allocates \<open>cpu_count + 1\<close> slots.
\<close>

theorem identify_cpu_overruns:
  assumes "classify_cpu m s = Inr s1" and "\<not> calloc_null m" and "\<forall>n. open_dev m n \<noteq> - 1"
    and "0 \<le> nprocessors_conf m" and "nprocessors_conf m < 2 ^ 32 - 2"
  shows "\<exists>s'. identify_cpu m s = Inl (Out_of_bounds (cpu_count s' + 1), s')
           \<and> length (alloc s') = cpu_count s' + 1"
  using assms by (rule identify_cpu_stops_in_open_msrs)

lemma cpuid_example_signature: "eax (cpuid_example sig 1) = sig"
  by (simp add: cpuid_example_def)

lemma classify_example:
  "classify_cpu (machine_example 0x00A30F00 b p u) s =
     Inr (s\<lparr>cpu_vendor := ''AuthenticAMD'', cpu_family := 0x19, cpu_model := 0x30,
            cpu := AMD, pkg_msr := AMD_ENERGY_PKG_MSR, core_msr := AMD_ENERGY_CORE_MSR\<rparr>)"
  using signature_19_30
  by (simp add: classify_cpu_def machine_example_def vendor_string_example
      cpuid_example_signature Let_def)

theorem identify_cpu_overruns_witness:
  "\<exists>s'. identify_cpu (machine_example 0x00A30F00 0 1 0x000A1003) initial_state
            = Inl (Out_of_bounds (cpu_count s' + 1), s')
        \<and> length (alloc s') = cpu_count s' + 1"
proof -
  let ?m = "machine_example 0x00A30F00 0 1 0x000A1003"
  have a: "\<not> calloc_null ?m" "\<forall>n. open_dev ?m n \<noteq> - 1" "0 \<le> nprocessors_conf ?m"
    "nprocessors_conf ?m < 2 ^ 32 - 2"
    by (simp_all add: machine_example_def)
  show ?thesis
    by (rule identify_cpu_overruns [OF classify_example a])
qed

lemma read_power_overruns_example:
  "\<exists>s'. read_power (constant_reader 1000) (intel_example 1) = Inl (Out_of_bounds 2, s')"
  by (simp add: tick_defs example_defs)

section \<open>The interval\<close>

lemma getopt_loop_timeo: "timeo (getopt_loop opts s) = timeo s"
  by (induction opts arbitrary: s) simp_all

lemma main_args_default:
  "timeo (main_args opts None) = 1 \<and> scale (main_args opts None) = Finite 1"
  by (simp add: main_args_def getopt_loop_timeo initial_state_def double_of_int_def)

lemma int_of_double_floor:
  assumes "0 \<le> x" and "x < 2 ^ 31"
  shows "int_of_double (Finite x) = \<lfloor>x\<rfloor>"
proof -
  from assms(1) have "0 \<le> \<lfloor>x\<rfloor>" by simp
  moreover from assms(2) have "\<lfloor>x\<rfloor> < 2 ^ 31" by (simp add: floor_less_iff)
  ultimately show ?thesis using assms(1) by (simp add: int_of_double_def)
qed

lemma main_args_interval:
  assumes "1 \<le> x" and "x < 2 ^ 31"
  shows "timeo (main_args opts (Some (Finite x))) = \<lfloor>x\<rfloor>"
    and "scale (main_args opts (Some (Finite x))) = Finite (1 / real_of_int \<lfloor>x\<rfloor>)"
proof -
  from assms(1) have "0 \<le> x" by simp
  then have t: "int_of_double (Finite x) = \<lfloor>x\<rfloor>" using assms(2) by (rule int_of_double_floor)
  from assms(1) have "1 \<le> \<lfloor>x\<rfloor>" by simp
  then have "\<lfloor>x\<rfloor> \<noteq> 0" by linarith
  then have nz: "real_of_int \<lfloor>x\<rfloor> \<noteq> 0" by (simp only: of_int_eq_0_iff not_False_eq_True)
  show "timeo (main_args opts (Some (Finite x))) = \<lfloor>x\<rfloor>"
    by (simp add: main_args_def t)
  show "scale (main_args opts (Some (Finite x))) = Finite (1 / real_of_int \<lfloor>x\<rfloor>)"
    using nz by (simp add: main_args_def t double_of_int_def)
qed

lemma main_loop_slept:
  "main_loop rds s = Inr s' \<Longrightarrow>
     slept s' = slept s @ replicate (length rds) (nat (timeo s mod 2 ^ 32))"
proof (induction rds arbitrary: s)
  case Nil
  then show ?case by simp
next
  case (Cons rd rds)
  from Cons.prems obtain t where t: "read_power rd s = Inr t"
    and r: "main_loop rds (t\<lparr>slept := slept t @ [nat (timeo t mod 2 ^ 32)]\<rparr>) = Inr s'"
    by (cases "read_power rd s") (simp_all add: and_then_def)
  from t read_power_unchanged [of s rd] have u: "unchanged_config s t"
    by (simp add: result_state_def)
  note f = unchanged_config_fields [OF u]
  from Cons.IH [OF r] f(7,13) show ?case
    by (simp add: replicate_append_same)
qed

text \<open>
  C4, as the code has it.  Without a positional argument the interval is 1 and the scale
  is 1.  With one, the value that \<open>atof\<close> returns is converted to the \<open>int\<close> \<open>timeo\<close>,
  which drops its fraction; for a value from 1 up to the largest \<open>int\<close> that integer is
  the floor of the value, and the scale is its reciprocal.  Every iteration of the loop
  of \<open>main\<close> sleeps for \<open>timeo\<close> seconds.
\<close>

theorem interval_truncated_to_int:
  "timeo (main_args opts None) = 1 \<and> scale (main_args opts None) = Finite 1
   \<and> (1 \<le> x \<longrightarrow> x < 2 ^ 31 \<longrightarrow>
        timeo (main_args opts (Some (Finite x))) = \<lfloor>x\<rfloor>
        \<and> scale (main_args opts (Some (Finite x))) = Finite (1 / real_of_int \<lfloor>x\<rfloor>))
   \<and> (main_loop rds s = Inr s' \<longrightarrow>
        slept s' = slept s @ replicate (length rds) (nat (timeo s mod 2 ^ 32)))"
  using main_args_default [of opts] main_args_interval [of x opts] main_loop_slept [of rds s s']
  by blast

text \<open>
  The claim C4 fails for an interval of one half: \<open>timeo\<close> is 0 and the scale is the
  result of dividing 1.0 by zero, not 2.
\<close>

theorem interval_half_counterexample:
  "timeo (main_args [] (Some (Finite (1 / 2)))) = 0
   \<and> scale (main_args [] (Some (Finite (1 / 2)))) = PosInf
   \<and> scale (main_args [] (Some (Finite (1 / 2)))) \<noteq> Finite 2"
  by (simp add: main_args_def int_of_double_def double_of_int_def inf_of_sign_def)


lemma intel_two_ticks:
  "\<exists>s'. main_loop [constant_reader 1000, constant_reader 3000] ((intel_example 0)\<lparr>timeo := 2\<rparr>)
          = Inr s'"
  by (simp add: tick_defs example_defs and_then_def)

theorem interval_truncated_to_int_witness:
  "timeo (main_args [] (Some (Finite (5 / 2)))) = 2
   \<and> scale (main_args [] (Some (Finite (5 / 2)))) = Finite (1 / 2)
   \<and> slept (result_state (main_loop [constant_reader 1000, constant_reader 3000]
                             ((intel_example 0)\<lparr>timeo := 2\<rparr>))) = [2, 2]"
proof -
  let ?s = "(intel_example 0)\<lparr>timeo := 2\<rparr>"
  let ?rds = "[constant_reader 1000, constant_reader 3000]"
  obtain s' where run: "main_loop ?rds ?s = Inr s'" using intel_two_ticks by blast
  note t = interval_truncated_to_int [of "[]" "5 / 2" ?rds ?s s']
  have x: "(1::real) \<le> 5 / 2" "(5 / 2 :: real) < 2 ^ 31" "\<lfloor>5 / 2 :: real\<rfloor> = 2" by simp_all
  have s: "slept ?s = []" "timeo ?s = 2" by (simp_all add: intel_example_def initial_state_def)
  from t x have "timeo (main_args [] (Some (Finite (5 / 2)))) = 2"
    and "scale (main_args [] (Some (Finite (5 / 2)))) = Finite (1 / 2)" by simp_all
  moreover from t run s have "slept s' = [2, 2]" by (simp add: numeral_2_eq_2)
  ultimately show ?thesis using run by (simp add: result_state_def)
qed

section \<open>An option that the program does not know\<close>

lemma erase_err_idem [simp]: "erase_err (erase_err s) = erase_err s"
  by (simp add: erase_err_def)

lemma and_then_erased:
  assumes "\<And>s. erase_result (f s) = erase_result (f (erase_err s))"
  shows "erase_result (and_then r f) = erase_result (and_then (erase_result r) f)"
proof (cases r)
  case (Inl e)
  then show ?thesis by (cases e) (simp add: and_then_def erase_result_def)
next
  case (Inr s)
  then show ?thesis using assms [of s] by (simp add: and_then_def erase_result_def)
qed

lemma classify_cpu_erased:
  "erase_result (classify_cpu m s) = erase_result (classify_cpu m (erase_err s))"
  by (simp add: classify_cpu_def Let_def unsupported_cpu_def erase_result_def erase_err_def)

lemma resolve_topology_erased:
  "erase_result (resolve_topology m s) = erase_result (resolve_topology m (erase_err s))"
  by (simp add: resolve_topology_def Let_def erase_result_def erase_err_def)

lemma open_slot_erased:
  "erase_result (open_slot m core i s) = erase_result (open_slot m core i (erase_err s))"
  by (simp add: open_slot_def Let_def erase_result_def erase_err_def)

lemma erase_err_fields [simp]:
  "cpu_count (erase_err s) = cpu_count s" "cpu (erase_err s) = cpu s"
  "verbose (erase_err s) = verbose s" "core_msr (erase_err s) = core_msr s"
  "dram_msr (erase_err s) = dram_msr s" "alloc (erase_err s) = alloc s"
  "timeo (erase_err s) = timeo s" "slept (erase_err s) = slept s"
  by (simp_all add: erase_err_def)

lemma open_msrs_loop_erased:
  "erase_result (open_msrs_loop m cores s) = erase_result (open_msrs_loop m cores (erase_err s))"
proof (induction cores arbitrary: s)
  case Nil
  show ?case by (simp add: erase_result_def)
next
  case (Cons c cores)
  have slot: "erase_result (and_then (open_slot m c i s) (open_msrs_loop m cores))
      = erase_result (and_then (open_slot m c i (erase_err s)) (open_msrs_loop m cores))" for i
    using and_then_erased [of "open_msrs_loop m cores", OF Cons.IH]
    by (metis open_slot_erased)
  show ?case using slot [of 0] slot [of c] Cons.IH [of s] by simp
qed


lemma open_msrs_erased:
  "erase_result (open_msrs m s) = erase_result (open_msrs m (erase_err s))"
  using open_msrs_loop_erased [of m "[0..<u32_add (cpu_count s) 2]" s]
  by (simp add: open_msrs_def)

lemma read_units_erased:
  "erase_result (read_units m s) = erase_result (read_units m (erase_err s))"
  by (simp add: read_units_def read_msr_def Let_def erase_result_def erase_err_def
      split: option.split)

lemma print_banner_erased: "erase_err (print_banner s) = erase_err (print_banner (erase_err s))"
  by (simp add: print_banner_def erase_err_def)

lemma identify_cpu_erased:
  "erase_result (identify_cpu m s) = erase_result (identify_cpu m (erase_err s))"
proof -
  let ?f4 = "\<lambda>s4. Inr (print_banner s4) :: result"
  let ?f3 = "\<lambda>s3. and_then (read_units m s3) ?f4"
  let ?f2 = "\<lambda>s2. and_then (open_msrs m s2) ?f3"
  let ?f1 = "\<lambda>s1. and_then (resolve_topology m s1) ?f2"
  have b4: "erase_result (?f4 s) = erase_result (?f4 (erase_err s))" for s
    using print_banner_erased [of s] by (simp add: erase_result_def)
  have b3: "erase_result (?f3 s) = erase_result (?f3 (erase_err s))" for s
    using and_then_erased [of ?f4 "read_units m s", OF b4]
      and_then_erased [of ?f4 "read_units m (erase_err s)", OF b4]
    by (simp add: read_units_erased [of m s])
  have b2: "erase_result (?f2 s) = erase_result (?f2 (erase_err s))" for s
    using and_then_erased [of ?f3 "open_msrs m s", OF b3]
      and_then_erased [of ?f3 "open_msrs m (erase_err s)", OF b3]
    by (simp add: open_msrs_erased [of m s])
  have b1: "erase_result (?f1 s) = erase_result (?f1 (erase_err s))" for s
    using and_then_erased [of ?f2 "resolve_topology m s", OF b2]
      and_then_erased [of ?f2 "resolve_topology m (erase_err s)", OF b2]
    by (simp add: resolve_topology_erased [of m s])
  show ?thesis
    unfolding identify_cpu_def
    using and_then_erased [of ?f1 "classify_cpu m s", OF b1]
      and_then_erased [of ?f1 "classify_cpu m (erase_err s)", OF b1]
    by (simp add: classify_cpu_erased [of m s])
qed

lemma read_power_step_erased:
  "erase_step (read_power_step rd mx core (c, s))
     = erase_step (read_power_step rd mx core (c, erase_err s))"
proof -
  have f: "msr_of (erase_err s) core = msr_of s core"
    "watts_of (erase_err s) core = watts_of s core"
    "print_delta (erase_err s) mx core = print_delta s mx core"
    "first (erase_err s) = first s" "out (erase_err s) = out s"
    unfolding msr_of_def watts_of_def amd_add_power_def print_delta_def erase_err_def
    by (simp_all split del: if_split cong: if_cong)
  show ?thesis
  proof (cases "rd (fd (alloc s ! core)) (msr_of s core)")
    case None
    then show ?thesis
      by (simp add: read_power_step_def read_msr_def Let_def erase_step_def f)
        (simp add: erase_err_def)
  next
    case (Some data)
    then show ?thesis
      by (simp add: read_power_step_def read_msr_def Let_def erase_step_def f)
        (simp add: erase_err_def)
  qed
qed

lemma read_power_loop_erased:
  "erase_step (read_power_loop rd mx cores (c, s))
     = erase_step (read_power_loop rd mx cores (c, erase_err s))"
proof (induction cores arbitrary: c s)
  case Nil
  show ?case by (simp add: erase_step_def)
next
  case (Cons core cores)
  let ?a = "read_power_step rd mx core (c, s)"
  let ?b = "read_power_step rd mx core (c, erase_err s)"
  have e: "erase_step ?a = erase_step ?b" by (rule read_power_step_erased)
  show ?case
  proof (cases ?a)
    case (Inl x)
    with e obtain y where "?b = Inl y" by (cases ?b) (auto simp: erase_step_def split: prod.splits)
    with Inl e show ?thesis by simp
  next
    case (Inr x)
    obtain c1 s1 where x: "x = (c1, s1)" by (cases x)
    from Inr e obtain y where y: "?b = Inr y"
      by (cases ?b) (auto simp: erase_step_def split: prod.splits)
    obtain c2 s2 where y2: "y = (c2, s2)" by (cases y)
    from e Inr y x y2 have eq: "c1 = c2" "erase_err s1 = erase_err s2"
      by (simp_all add: erase_step_def)
    have "erase_step (read_power_loop rd mx cores (c1, s1))
        = erase_step (read_power_loop rd mx cores (c1, erase_err s1))" by (rule Cons.IH)
    also have "\<dots> = erase_step (read_power_loop rd mx cores (c2, erase_err s2))"
      using eq by simp
    also have "\<dots> = erase_step (read_power_loop rd mx cores (c2, s2))"
      by (rule Cons.IH [symmetric])
    finally show ?thesis using Inr y x y2 by simp
  qed
qed

lemma first_max_erased [simp]:
  "max_of (erase_err s) = max_of s" "first_core_of (erase_err s) = first_core_of s"
  by (simp_all add: max_of_def first_core_of_def)

lemma erase_err_first: "erase_err (s\<lparr>first := b\<rparr>) = (erase_err s)\<lparr>first := b\<rparr>"
  by (simp add: erase_err_def)

lemma read_power_result_erased:
  "erase_result (case l of Inl e \<Rightarrow> Inl e | Inr cs \<Rightarrow> Inr ((snd cs)\<lparr>first := False\<rparr>))
     = (case erase_step l of Inl e \<Rightarrow> Inl e | Inr cs \<Rightarrow> Inr ((snd cs)\<lparr>first := False\<rparr>))"
  by (simp add: erase_result_def erase_step_def erase_err_first split: sum.split prod.split)

lemma read_power_erased:
  "erase_result (read_power rd s) = erase_result (read_power rd (erase_err s))"
  unfolding read_power_def read_power_result_erased first_max_erased
  by (simp only: read_power_loop_erased [of rd "max_of s" _ "Finite 0" s])

lemma erase_err_slept:
  "(erase_err s)\<lparr>slept := slept (erase_err s) @ [nat (timeo (erase_err s) mod 2 ^ 32)]\<rparr>
     = erase_err (s\<lparr>slept := slept s @ [nat (timeo s mod 2 ^ 32)]\<rparr>)"
  by (simp add: erase_err_def)

lemma main_loop_erased:
  "erase_result (main_loop rds s) = erase_result (main_loop rds (erase_err s))"
proof (induction rds arbitrary: s)
  case Nil
  show ?case by (simp add: erase_result_def)
next
  case (Cons rd rds)
  let ?g = "\<lambda>s'. main_loop rds (s'\<lparr>slept := slept s' @ [nat (timeo s' mod 2 ^ 32)]\<rparr>)"
  have g: "erase_result (?g t) = erase_result (?g (erase_err t))" for t
    unfolding erase_err_slept by (rule Cons.IH)
  show ?case
    using and_then_erased [of ?g "read_power rd s", OF g]
      and_then_erased [of ?g "read_power rd (erase_err s)", OF g]
    by (simp add: read_power_erased [of rd s])
qed

lemma main_erased:
  assumes "erase_err s = erase_err s'"
  shows "same_apart_from_err (and_then (identify_cpu m s) (main_loop rds))
           (and_then (identify_cpu m s') (main_loop rds))"
proof -
  have "erase_result (identify_cpu m s) = erase_result (identify_cpu m s')"
    using identify_cpu_erased [of m s] identify_cpu_erased [of m s'] assms by simp
  then show ?thesis
    unfolding same_apart_from_err_def
    using and_then_erased [of "main_loop rds" "identify_cpu m s", OF main_loop_erased]
      and_then_erased [of "main_loop rds" "identify_cpu m s'", OF main_loop_erased]
    by simp
qed

lemma getopt_loop_append: "getopt_loop (xs @ ys) s = getopt_loop ys (getopt_loop xs s)"
  by (induction xs arbitrary: s) simp_all

lemma getopt_loop_erased: "erase_err (getopt_loop opts s) = erase_err (getopt_loop opts (erase_err s))"
proof (induction opts arbitrary: s)
  case Nil
  show ?case by simp
next
  case (Cons c opts)
  have v: "erase_err (s\<lparr>verbose := verbose s + 1\<rparr>) = erase_err ((erase_err s)\<lparr>verbose := verbose s + 1\<rparr>)"
    by (simp add: erase_err_def)
  have u: "erase_err (s\<lparr>err := e\<rparr>) = erase_err s" for e
    by (simp add: erase_err_def)
  show ?case
  proof (cases "c = CHR ''v''")
    case True
    then show ?thesis
      using Cons.IH [of "s\<lparr>verbose := verbose s + 1\<rparr>"]
        Cons.IH [of "(erase_err s)\<lparr>verbose := verbose s + 1\<rparr>"] v by simp
  next
    case False
    let ?a = "s\<lparr>err := err s @ [Usage]\<rparr>"
    let ?b = "(erase_err s)\<lparr>err := err (erase_err s) @ [Usage]\<rparr>"
    have "erase_err (getopt_loop opts ?a) = erase_err (getopt_loop opts (erase_err ?a))"
      by (rule Cons.IH)
    also have "erase_err ?a = erase_err ?b" by (simp add: erase_err_def)
    also have "erase_err (getopt_loop opts (erase_err ?b)) = erase_err (getopt_loop opts ?b)"
      by (rule Cons.IH [symmetric])
    finally show ?thesis using False by simp
  qed
qed

lemma getopt_loop_err_mono: "set (err s) \<subseteq> set (err (getopt_loop opts s))"
proof (induction opts arbitrary: s)
  case Nil
  show ?case by simp
next
  case (Cons c opts)
  show ?case
    using Cons.IH [of "s\<lparr>verbose := verbose s + 1\<rparr>"] Cons.IH [of "s\<lparr>err := err s @ [Usage]\<rparr>"]
    by auto
qed

lemma getopt_unknown_option:
  assumes "c \<noteq> CHR ''v''"
  shows "erase_err (getopt_loop (xs @ c # ys) s) = erase_err (getopt_loop (xs @ ys) s)"
    and "Usage \<in> set (err (getopt_loop (xs @ c # ys) s))"
proof -
  let ?t = "getopt_loop xs s"
  have u: "erase_err (?t\<lparr>err := err ?t @ [Usage]\<rparr>) = erase_err ?t"
    by (simp add: erase_err_def)
  have "erase_err (getopt_loop ys (?t\<lparr>err := err ?t @ [Usage]\<rparr>)) = erase_err (getopt_loop ys ?t)"
    using getopt_loop_erased [of ys "?t\<lparr>err := err ?t @ [Usage]\<rparr>"] getopt_loop_erased [of ys ?t] u
    by simp
  with assms show "erase_err (getopt_loop (xs @ c # ys) s) = erase_err (getopt_loop (xs @ ys) s)"
    by (simp add: getopt_loop_append)
  show "Usage \<in> set (err (getopt_loop (xs @ c # ys) s))"
    using assms getopt_loop_err_mono [of "?t\<lparr>err := err ?t @ [Usage]\<rparr>" ys]
    by (auto simp: getopt_loop_append)
qed

lemma main_args_via_erased:
  "erase_err (main_args opts arg) =
     (let g = erase_err (getopt_loop opts initial_state)
      in case arg of
           None \<Rightarrow> g\<lparr>scale := ddiv (Finite 1) (double_of_int (timeo g))\<rparr>
         | Some d \<Rightarrow> g\<lparr>timeo := int_of_double d,
                        scale := ddiv (Finite 1) (double_of_int (int_of_double d))\<rparr>)"
  by (cases arg) (simp_all add: main_args_def erase_err_def Let_def)

lemma main_args_erased:
  assumes "erase_err (getopt_loop opts initial_state) = erase_err (getopt_loop opts' initial_state)"
  shows "erase_err (main_args opts arg) = erase_err (main_args opts' arg)"
  unfolding main_args_via_erased assms ..

lemma and_then_keeps:
  assumes "g (result_state r) = g s" and "\<And>t. g (result_state (f t)) = g t"
  shows "g (result_state (and_then r f)) = g s"
proof (cases r)
  case (Inl e)
  with assms(1) show ?thesis by (simp add: and_then_def)
next
  case (Inr t)
  with assms(1) assms(2) [of t] show ?thesis by (simp add: and_then_def result_state_def)
qed

lemma open_slot_keeps:
  "(\<lambda>s. (verbose s, timeo s, scale s)) (result_state (open_slot m core i s))
     = (verbose s, timeo s, scale s)"
  by (simp add: open_slot_def Let_def result_state_def)

lemma open_msrs_loop_keeps:
  "(\<lambda>s. (verbose s, timeo s, scale s)) (result_state (open_msrs_loop m cores s))
     = (verbose s, timeo s, scale s)"
proof (induction cores arbitrary: s)
  case Nil
  show ?case by (simp add: result_state_def)
next
  case (Cons c cores)
  have slot: "(\<lambda>s. (verbose s, timeo s, scale s))
      (result_state (and_then (open_slot m c i s) (open_msrs_loop m cores)))
      = (verbose s, timeo s, scale s)" for i
    using open_slot_keeps [of m c i s] Cons.IH
    by (rule and_then_keeps [of "\<lambda>s. (verbose s, timeo s, scale s)"])
  show ?case using slot [of 0] slot [of c] Cons.IH [of s] by simp
qed

lemma identify_cpu_keeps:
  "verbose (result_state (identify_cpu m s)) = verbose s
   \<and> timeo (result_state (identify_cpu m s)) = timeo s
   \<and> scale (result_state (identify_cpu m s)) = scale s"
proof -
  let ?g = "\<lambda>s. (verbose s, timeo s, scale s)"
  have c: "?g (result_state (classify_cpu m s)) = ?g s" for s
    by (simp add: classify_cpu_def Let_def unsupported_cpu_def result_state_def)
  have t: "?g (result_state (resolve_topology m s)) = ?g s" for s
    by (simp add: resolve_topology_def Let_def result_state_def)
  have o: "?g (result_state (open_msrs m s)) = ?g s" for s
    unfolding open_msrs_def by (rule open_msrs_loop_keeps)
  have u: "?g (result_state (read_units m s)) = ?g s" for s
    by (simp add: read_units_def read_msr_def Let_def result_state_def split: option.split)
  have b: "?g (result_state (Inr (print_banner s) :: result)) = ?g s" for s
    by (simp add: print_banner_def result_state_def)
  have f4: "?g (result_state (and_then (read_units m s) (\<lambda>s4. Inr (print_banner s4)))) = ?g s"
    for s using u b by (rule and_then_keeps [of ?g])
  have f3: "?g (result_state (and_then (open_msrs m s)
      (\<lambda>s3. and_then (read_units m s3) (\<lambda>s4. Inr (print_banner s4))))) = ?g s" for s
    using o f4 by (rule and_then_keeps [of ?g])
  have f2: "?g (result_state (and_then (resolve_topology m s) (\<lambda>s2. and_then (open_msrs m s2)
      (\<lambda>s3. and_then (read_units m s3) (\<lambda>s4. Inr (print_banner s4)))))) = ?g s" for s
    using t f3 by (rule and_then_keeps [of ?g])
  have "?g (result_state (identify_cpu m s)) = ?g s"
    unfolding identify_cpu_def using c f2 by (rule and_then_keeps [of ?g])
  then show ?thesis by simp
qed

lemma configured_erased:
  assumes "erase_err a = erase_err b"
  shows "erase_err (configured a s) = erase_err (configured b s)"
proof -
  from assms have "verbose (erase_err a) = verbose (erase_err b)"
    "timeo (erase_err a) = timeo (erase_err b)" "scale (erase_err a) = scale (erase_err b)"
    by simp_all
  then have "verbose a = verbose b" "timeo a = timeo b" "scale a = scale b"
    by (simp_all add: erase_err_def)
  then show ?thesis by (simp add: configured_def erase_err_def)
qed

text \<open>
  C10.  When \<open>getopt\<close> reports an option other than \<open>v\<close>, the option loop of \<open>main\<close>
  writes the usage message to the error stream and goes on.  What the argument handling
  leaves is the same as without that option, apart from the error stream, and so is all
  that follows: the identification of the processor, which also keeps the verbosity, the
  interval and the scale of the argument handling; the sampling loop started in any
  state that the identification can set up, with the configuration of the argument
  handling; and the run of \<open>main\<close> as a whole.
\<close>

theorem unknown_option_only_prints_usage:
  assumes "c \<noteq> CHR ''v''"
  shows "same_apart_from_err (main m (xs @ c # ys) arg rds) (main m (xs @ ys) arg rds)
       \<and> Usage \<in> set (err (main_args (xs @ c # ys) arg))
       \<and> erase_err (main_args (xs @ c # ys) arg) = erase_err (main_args (xs @ ys) arg)
       \<and> same_apart_from_err (identify_cpu m (main_args (xs @ c # ys) arg))
            (identify_cpu m (main_args (xs @ ys) arg))
       \<and> verbose (result_state (identify_cpu m (main_args (xs @ c # ys) arg)))
            = verbose (main_args (xs @ ys) arg)
       \<and> timeo (result_state (identify_cpu m (main_args (xs @ c # ys) arg)))
            = timeo (main_args (xs @ ys) arg)
       \<and> scale (result_state (identify_cpu m (main_args (xs @ c # ys) arg)))
            = scale (main_args (xs @ ys) arg)
       \<and> same_apart_from_err
            (main_loop rds (configured (main_args (xs @ c # ys) arg) s))
            (main_loop rds (configured (main_args (xs @ ys) arg) s))"
proof -
  let ?a = "main_args (xs @ c # ys) arg"
  let ?b = "main_args (xs @ ys) arg"
  have e: "erase_err ?a = erase_err ?b"
    using getopt_unknown_option(1) [OF assms] by (rule main_args_erased)
  then have m: "same_apart_from_err (main m (xs @ c # ys) arg rds) (main m (xs @ ys) arg rds)"
    unfolding main_def by (rule main_erased)
  have u: "Usage \<in> set (err ?a)"
    using getopt_unknown_option(2) [OF assms, of xs ys initial_state]
    by (cases arg) (simp_all add: main_args_def Let_def)
  have i: "same_apart_from_err (identify_cpu m ?a) (identify_cpu m ?b)"
    unfolding same_apart_from_err_def
    using identify_cpu_erased [of m ?a] identify_cpu_erased [of m ?b] e by simp
  from e have "verbose (erase_err ?a) = verbose (erase_err ?b)"
    "timeo (erase_err ?a) = timeo (erase_err ?b)" "scale (erase_err ?a) = scale (erase_err ?b)"
    by simp_all
  then have f: "verbose ?a = verbose ?b" "timeo ?a = timeo ?b" "scale ?a = scale ?b"
    by (simp_all add: erase_err_def)
  have k: "verbose (result_state (identify_cpu m ?a)) = verbose ?b"
    "timeo (result_state (identify_cpu m ?a)) = timeo ?b"
    "scale (result_state (identify_cpu m ?a)) = scale ?b"
    using identify_cpu_keeps [of m ?a] f by simp_all
  have "erase_err (configured ?a s) = erase_err (configured ?b s)"
    using e by (rule configured_erased)
  then have l: "same_apart_from_err (main_loop rds (configured ?a s))
      (main_loop rds (configured ?b s))"
    unfolding same_apart_from_err_def
    using main_loop_erased [of rds "configured ?a s"] main_loop_erased [of rds "configured ?b s"]
    by simp
  from m u e i k l show ?thesis by blast
qed

lemma sampling_with_unknown_option:
  "main_args [CHR ''v'', CHR ''x''] None
     = initial_state\<lparr>verbose := 1, err := [Usage], scale := Finite 1\<rparr>"
  "main_args [CHR ''v''] None = initial_state\<lparr>verbose := 1, scale := Finite 1\<rparr>"
  by (simp_all add: main_args_def initial_state_def double_of_int_def)

lemma sampling_with_unknown_option_run:
  "\<exists>s'. main_loop [constant_reader 65536, constant_reader 196608]
           (configured (main_args [CHR ''v'', CHR ''x''] None) (amd_example 1 16 1)) = Inr s'
        \<and> out s' = [Printf_rule, Printf_core_label 0, Printf_core (Finite 2), Printf_newline,
                    Printf_rule, Printf_pkg (Finite 2), Printf_core_sum (Finite 2),
                    Printf_newline]
        \<and> slept s' = [1, 1] \<and> err s' = [Usage]"
  unfolding sampling_with_unknown_option
  by (simp add: tick_defs example_defs configured_def and_then_def double_of_uint64_def
      double_of_int_def int_shl1_def dsub_def)

theorem unknown_option_only_prints_usage_witness:
  "same_apart_from_err
     (main (machine_example 0x00A30F00 0 1 0x000A1003) [CHR ''v'', CHR ''x''] None
        [constant_reader 65536, constant_reader 196608])
     (main (machine_example 0x00A30F00 0 1 0x000A1003) [CHR ''v''] None
        [constant_reader 65536, constant_reader 196608])
   \<and> Usage \<in> set (err (main_args [CHR ''v'', CHR ''x''] None))
   \<and> sampling_state (configured (main_args [CHR ''v'', CHR ''x''] None) (amd_example 1 16 1))
   \<and> same_apart_from_err
        (main_loop [constant_reader 65536, constant_reader 196608]
           (configured (main_args [CHR ''v'', CHR ''x''] None) (amd_example 1 16 1)))
        (main_loop [constant_reader 65536, constant_reader 196608]
           (configured (main_args [CHR ''v''] None) (amd_example 1 16 1)))
   \<and> \<not> isl (main_loop [constant_reader 65536, constant_reader 196608]
              (configured (main_args [CHR ''v'', CHR ''x''] None) (amd_example 1 16 1)))
   \<and> out (result_state (main_loop [constant_reader 65536, constant_reader 196608]
              (configured (main_args [CHR ''v'', CHR ''x''] None) (amd_example 1 16 1))))
       = [Printf_rule, Printf_core_label 0, Printf_core (Finite 2), Printf_newline,
          Printf_rule, Printf_pkg (Finite 2), Printf_core_sum (Finite 2), Printf_newline]
   \<and> out (result_state (main_loop [constant_reader 65536, constant_reader 196608]
              (configured (main_args [CHR ''v''] None) (amd_example 1 16 1))))
       = [Printf_rule, Printf_core_label 0, Printf_core (Finite 2), Printf_newline,
          Printf_rule, Printf_pkg (Finite 2), Printf_core_sum (Finite 2), Printf_newline]
   \<and> slept (result_state (main_loop [constant_reader 65536, constant_reader 196608]
              (configured (main_args [CHR ''v'', CHR ''x''] None) (amd_example 1 16 1))))
       = [1, 1]"
proof -
  let ?m = "machine_example 0x00A30F00 0 1 0x000A1003"
  let ?rds = "[constant_reader 65536, constant_reader 196608]"
  let ?a = "main_args [CHR ''v'', CHR ''x''] None"
  let ?b = "main_args [CHR ''v''] None"
  let ?s = "amd_example 1 16 1"
  have c: "CHR ''x'' \<noteq> CHR ''v''" by simp
  note t = unknown_option_only_prints_usage [OF c, of ?m "[CHR ''v'']" "[]" None ?rds ?s]
  from t have m: "same_apart_from_err (main ?m [CHR ''v'', CHR ''x''] None ?rds)
      (main ?m [CHR ''v''] None ?rds)"
    and u: "Usage \<in> set (err ?a)"
    and l: "same_apart_from_err (main_loop ?rds (configured ?a ?s))
      (main_loop ?rds (configured ?b ?s))"
    by simp_all
  have ss: "sampling_state (configured ?a ?s)"
    unfolding sampling_with_unknown_option
    by (simp add: sampling_state_def configured_def amd_example_def initial_state_def
        AMD_ENERGY_CORE_MSR_def)
  from sampling_with_unknown_option_run
  obtain s' where r: "main_loop ?rds (configured ?a ?s) = Inr s'"
    and o: "out s' = [Printf_rule, Printf_core_label 0, Printf_core (Finite 2), Printf_newline,
                    Printf_rule, Printf_pkg (Finite 2), Printf_core_sum (Finite 2),
                    Printf_newline]"
    and sl: "slept s' = [1, 1]" by blast
  from l r obtain s'' where r': "main_loop ?rds (configured ?b ?s) = Inr s''"
    and eq: "erase_err s' = erase_err s''"
    by (cases "main_loop ?rds (configured ?b ?s)")
      (auto simp: same_apart_from_err_def erase_result_def split: prod.splits)
  from eq have "out (erase_err s') = out (erase_err s'')" by simp
  then have o': "out s'' = out s'" by (simp add: erase_err_def)
  from m u ss l r r' o o' sl show ?thesis by (simp add: result_state_def)
qed

section \<open>The loop of read_power\<close>

lemma int_shl1_pow:
  assumes "u \<le> 30"
  shows "int_shl1 u = 2 ^ u"
proof -
  from assms have "(2::int) ^ u \<le> 2 ^ 30" by (intro power_increasing) simp_all
  then have lt: "(2::int) ^ u < 2 ^ 31" by simp
  have ge: "- (2 ^ 31) \<le> (2::int) ^ u"
    by (rule order_trans [of _ 0]) simp_all
  have "int_shl1 u = signed_take_bit 31 (push_bit u (1::int))"
    unfolding int_shl1_def signed_push_bit_eq by simp
  also have "\<dots> = signed_take_bit 31 ((2::int) ^ u)" by (simp add: push_bit_eq_mult)
  also have "\<dots> = 2 ^ u" using ge lt by (rule signed_take_bit_int_eq_self)
  finally show ?thesis .
qed

lemma int_shl1_31: "int_shl1 31 = - (2 ^ 31)"
  by (simp add: int_shl1_def)


lemma watts_of_amd:
  assumes "cpu s = AMD" and "amd_energy_units s \<le> 30"
  shows "watts_of s core data
           = Finite ((real (unat data) * 1000000 / 2 ^ amd_energy_units s) / 1000000)"
  using assms
  by (simp add: watts_of_def amd_add_power_def double_of_uint64_def double_of_int_def
      int_shl1_pow)

lemma watts_of_intel:
  assumes "cpu s = INTEL" and "energy_units s = Finite u" and "dram_units s = Finite v"
  shows "watts_of s core data
           = Finite (real (unat data) * (if core = cpu_count s then u else v))"
  using assms
  by (simp add: watts_of_def intel_add_power_def double_of_uint64_def)

lemma config_alloc_out:
  "msr_of (s\<lparr>alloc := a, out := ou\<rparr>) = msr_of s"
  "watts_of (s\<lparr>alloc := a, out := ou\<rparr>) = watts_of s"
  "print_delta (s\<lparr>alloc := a, out := ou\<rparr>) = print_delta s"
  "msr_of (s\<lparr>alloc := a\<rparr>) = msr_of s"
  "watts_of (s\<lparr>alloc := a\<rparr>) = watts_of s"
  "print_delta (s\<lparr>alloc := a\<rparr>) = print_delta s"
  unfolding msr_of_def watts_of_def amd_add_power_def print_delta_def fun_eq_iff
  by (simp_all split del: if_split cong: if_cong)

lemma read_power_step_printing:
  assumes "core < length (alloc s)"
    and "rd (fd (alloc s ! core)) (msr_of s core) = Some data"
    and "\<not> (first s \<and> verbose s < 2)"
  shows "read_power_step rd mx core (acc, s) =
     Inr (dadd acc (dsub (watts_of s core data) (last (alloc s ! core))),
          s\<lparr>alloc := (alloc s)[core := (alloc s ! core)\<lparr>last := watts_of s core data\<rparr>],
            out := out s @ print_delta s mx core
                     (dsub (watts_of s core data) (last (alloc s ! core))) acc\<rparr>)"
  using assms
  by (cases "first s") (simp_all add: read_power_step_def read_msr_def Let_def split del: if_split)

lemma read_power_step_suppressed:
  assumes "core < length (alloc s)"
    and "rd (fd (alloc s ! core)) (msr_of s core) = Some data"
    and "first s \<and> verbose s < 2"
  shows "read_power_step rd mx core (acc, s) =
     Inr (acc, s\<lparr>alloc := (alloc s)[core := (alloc s ! core)\<lparr>last := watts_of s core data\<rparr>]\<rparr>)"
  using assms
  by (cases "first s") (simp_all add: read_power_step_def read_msr_def Let_def split del: if_split)

lemma loop_events_cong:
  "\<forall>c \<in> set cs. d c = d' c \<Longrightarrow> loop_events pd d cs acc = loop_events pd d' cs acc"
  by (induction cs arbitrary: acc) simp_all

lemma loop_sum_cong:
  "\<forall>c \<in> set cs. d c = d' c \<Longrightarrow> loop_sum d cs acc = loop_sum d' cs acc"
  by (induction cs arbitrary: acc) simp_all

lemma read_power_loop_printing:
  assumes "\<not> (first s \<and> verbose s < 2)" and "distinct cs"
    and "\<forall>c \<in> set cs. c < length (alloc s) \<and> rd (fd (alloc s ! c)) (msr_of s c) = Some (r c)"
  shows "\<exists>a. read_power_loop rd mx cs (acc, s) =
           Inr (loop_sum (\<lambda>c. dsub (watts_of s c (r c)) (last (alloc s ! c))) cs acc,
                s\<lparr>alloc := a,
                  out := out s @ loop_events (print_delta s mx)
                           (\<lambda>c. dsub (watts_of s c (r c)) (last (alloc s ! c))) cs acc\<rparr>)
         \<and> length a = length (alloc s)
         \<and> (\<forall>i. fd (a ! i) = fd (alloc s ! i))
         \<and> (\<forall>i. i \<notin> set cs \<longrightarrow> a ! i = alloc s ! i)
         \<and> (\<forall>c \<in> set cs. last (a ! c) = watts_of s c (r c))"
  using assms
proof (induction cs arbitrary: acc s)
  case Nil
  have "s = s\<lparr>alloc := alloc s, out := out s\<rparr>" by simp
  then have "read_power_loop rd mx [] (acc, s) = Inr (acc, s\<lparr>alloc := alloc s, out := out s @ []\<rparr>)"
    by simp
  then show ?case by (intro exI [of _ "alloc s"]) simp
next
  case (Cons c cs)
  let ?d = "\<lambda>c. dsub (watts_of s c (r c)) (last (alloc s ! c))"
  let ?a1 = "(alloc s)[c := (alloc s ! c)\<lparr>last := watts_of s c (r c)\<rparr>]"
  let ?s1 = "s\<lparr>alloc := ?a1, out := out s @ print_delta s mx c (?d c) acc\<rparr>"
  let ?d1 = "\<lambda>c. dsub (watts_of ?s1 c (r c)) (last (alloc ?s1 ! c))"
  from Cons.prems have c: "c < length (alloc s)" "rd (fd (alloc s ! c)) (msr_of s c) = Some (r c)"
    and nin: "c \<notin> set cs" and dist: "distinct cs" by simp_all
  have step: "read_power_step rd mx c (acc, s) = Inr (dadd acc (?d c), ?s1)"
    using c Cons.prems(1) by (rule read_power_step_printing)
  have p1: "\<not> (first ?s1 \<and> verbose ?s1 < 2)" using Cons.prems(1) by simp
  have same: "\<forall>c' \<in> set cs. alloc ?s1 ! c' = alloc s ! c'"
  proof
    fix c'
    assume "c' \<in> set cs"
    with nin have "c \<noteq> c'" by blast
    then show "alloc ?s1 ! c' = alloc s ! c'" by simp
  qed
  have p3: "\<forall>c' \<in> set cs. c' < length (alloc ?s1)
              \<and> rd (fd (alloc ?s1 ! c')) (msr_of ?s1 c') = Some (r c')"
    using Cons.prems(3) same by (simp add: config_alloc_out)
  have d1: "\<forall>c' \<in> set cs. ?d1 c' = ?d c'" using same by (simp add: config_alloc_out)
  from Cons.IH [OF p1 dist p3, of "dadd acc (?d c)"]
  obtain a where a: "read_power_loop rd mx cs (dadd acc (?d c), ?s1) =
           Inr (loop_sum ?d1 cs (dadd acc (?d c)),
                ?s1\<lparr>alloc := a,
                  out := out ?s1 @ loop_events (print_delta ?s1 mx) ?d1 cs (dadd acc (?d c))\<rparr>)"
    and la: "length a = length (alloc ?s1)"
    and fa: "\<forall>i. fd (a ! i) = fd (alloc ?s1 ! i)"
    and na: "\<forall>i. i \<notin> set cs \<longrightarrow> a ! i = alloc ?s1 ! i"
    and wa: "\<forall>c' \<in> set cs. last (a ! c') = watts_of ?s1 c' (r c')"
    by blast
  have ev: "loop_events (print_delta ?s1 mx) ?d1 cs (dadd acc (?d c))
              = loop_events (print_delta s mx) ?d cs (dadd acc (?d c))"
    by (simp only: config_alloc_out(3) loop_events_cong [OF d1])
  have su: "loop_sum ?d1 cs (dadd acc (?d c)) = loop_sum ?d cs (dadd acc (?d c))"
    by (rule loop_sum_cong [OF d1])
  have run: "read_power_loop rd mx (c # cs) (acc, s) =
           Inr (loop_sum ?d (c # cs) acc,
                s\<lparr>alloc := a, out := out s @ loop_events (print_delta s mx) ?d (c # cs) acc\<rparr>)"
    using step a unfolding ev su by simp
  have l: "length a = length (alloc s)" using la by simp
  have f: "\<forall>i. fd (a ! i) = fd (alloc s ! i)"
  proof
    fix i
    show "fd (a ! i) = fd (alloc s ! i)"
      using fa [rule_format, of i] c(1) by (cases "i = c") simp_all
  qed
  have n: "\<forall>i. i \<notin> set (c # cs) \<longrightarrow> a ! i = alloc s ! i"
    using na by simp
  have "a ! c = alloc ?s1 ! c" using na nin by blast
  then have wc: "last (a ! c) = watts_of s c (r c)" using c(1) by simp
  have w: "\<forall>c' \<in> set (c # cs). last (a ! c') = watts_of s c' (r c')"
    using wa wc by (simp add: config_alloc_out)
  from run l f n w show ?case by blast
qed

lemma read_power_loop_suppressed:
  assumes "first s \<and> verbose s < 2" and "distinct cs"
    and "\<forall>c \<in> set cs. c < length (alloc s) \<and> rd (fd (alloc s ! c)) (msr_of s c) = Some (r c)"
  shows "\<exists>a. read_power_loop rd mx cs (acc, s) = Inr (acc, s\<lparr>alloc := a\<rparr>)
         \<and> length a = length (alloc s)
         \<and> (\<forall>i. fd (a ! i) = fd (alloc s ! i))
         \<and> (\<forall>i. i \<notin> set cs \<longrightarrow> a ! i = alloc s ! i)
         \<and> (\<forall>c \<in> set cs. last (a ! c) = watts_of s c (r c))"
  using assms
proof (induction cs arbitrary: s)
  case Nil
  have "read_power_loop rd mx [] (acc, s) = Inr (acc, s\<lparr>alloc := alloc s\<rparr>)" by simp
  then show ?case by (intro exI [of _ "alloc s"]) simp
next
  case (Cons c cs)
  let ?a1 = "(alloc s)[c := (alloc s ! c)\<lparr>last := watts_of s c (r c)\<rparr>]"
  let ?s1 = "s\<lparr>alloc := ?a1\<rparr>"
  from Cons.prems have c: "c < length (alloc s)" "rd (fd (alloc s ! c)) (msr_of s c) = Some (r c)"
    and nin: "c \<notin> set cs" and dist: "distinct cs" by simp_all
  have step: "read_power_step rd mx c (acc, s) = Inr (acc, ?s1)"
    using c Cons.prems(1) by (rule read_power_step_suppressed)
  have p1: "first ?s1 \<and> verbose ?s1 < 2" using Cons.prems(1) by simp
  have same: "\<forall>c' \<in> set cs. alloc ?s1 ! c' = alloc s ! c'"
  proof
    fix c'
    assume "c' \<in> set cs"
    with nin have "c \<noteq> c'" by blast
    then show "alloc ?s1 ! c' = alloc s ! c'" by simp
  qed
  have p3: "\<forall>c' \<in> set cs. c' < length (alloc ?s1)
              \<and> rd (fd (alloc ?s1 ! c')) (msr_of ?s1 c') = Some (r c')"
    using Cons.prems(3) same by (simp add: config_alloc_out)
  from Cons.IH [OF p1 dist p3]
  obtain a where a: "read_power_loop rd mx cs (acc, ?s1) = Inr (acc, ?s1\<lparr>alloc := a\<rparr>)"
    and la: "length a = length (alloc ?s1)"
    and fa: "\<forall>i. fd (a ! i) = fd (alloc ?s1 ! i)"
    and na: "\<forall>i. i \<notin> set cs \<longrightarrow> a ! i = alloc ?s1 ! i"
    and wa: "\<forall>c' \<in> set cs. last (a ! c') = watts_of ?s1 c' (r c')"
    by blast
  have run: "read_power_loop rd mx (c # cs) (acc, s) = Inr (acc, s\<lparr>alloc := a\<rparr>)"
    using step a by simp
  have l: "length a = length (alloc s)" using la by simp
  have f: "\<forall>i. fd (a ! i) = fd (alloc s ! i)"
  proof
    fix i
    show "fd (a ! i) = fd (alloc s ! i)"
      using fa [rule_format, of i] c(1) by (cases "i = c") simp_all
  qed
  have n: "\<forall>i. i \<notin> set (c # cs) \<longrightarrow> a ! i = alloc s ! i"
    using na by simp
  have "a ! c = alloc ?s1 ! c" using na nin by blast
  then have wc: "last (a ! c) = watts_of s c (r c)" using c(1) by simp
  have w: "\<forall>c' \<in> set (c # cs). last (a ! c') = watts_of s c' (r c')"
    using wa wc by (simp add: config_alloc_out)
  from run l f n w show ?case by blast
qed

lemma u32_sub_one:
  assumes "0 < a" and "a < 2 ^ 32"
  shows "u32_sub a 1 = a - 1"
proof -
  from assms(1) obtain k where k: "a = Suc k" by (cases a) simp_all
  have "(1::nat) mod 2 ^ 32 = 1" by simp
  then have "u32_sub a 1 = (k + 2 ^ 32) mod 2 ^ 32" by (simp add: u32_sub_def k)
  also have "\<dots> = k" using assms(2) k by simp
  finally show ?thesis using k by simp
qed

lemma sampling_range:
  assumes "sampling_state s"
  shows "max_of s = cpu_count s + 1" and "first_core_of s \<le> cpu_count s"
    and "u32_add (cpu_count s) 1 = cpu_count s + 1"
    and "u32_sub (cpu_count s + 1) 1 = cpu_count s"
    and "0 < cpu_count s \<Longrightarrow> u32_sub (cpu_count s) 1 = cpu_count s - 1"
proof -
  from assms have n: "cpu_count s + 2 < 2 ^ 32"
    and d: "\<not> (verbose s \<noteq> 0 \<and> core_msr s = 0 \<and> dram_msr s \<noteq> 0)"
    by (simp_all add: sampling_state_def)
  from n show a: "u32_add (cpu_count s) 1 = cpu_count s + 1" by (simp add: u32_add_def)
  from d a show "max_of s = cpu_count s + 1" by (auto simp: max_of_def)
  show "first_core_of s \<le> cpu_count s" by (simp add: first_core_of_def)
  from n have "cpu_count s + 1 < 2 ^ 32" by simp
  then show "u32_sub (cpu_count s + 1) 1 = cpu_count s"
    using u32_sub_one [of "cpu_count s + 1"] by simp
  assume "0 < cpu_count s"
  moreover from n have "cpu_count s < 2 ^ 32" by simp
  ultimately show "u32_sub (cpu_count s) 1 = cpu_count s - 1" by (rule u32_sub_one)
qed

text \<open>A tick in a sampling state whose reads succeed.\<close>

lemma read_power_tick:
  assumes "sampling_state s" and "readings rd s r"
  shows "\<exists>a. read_power rd s
             = Inr (s\<lparr>alloc := a, out := out s @ tick_events s r, first := False\<rparr>)
         \<and> length a = length (alloc s)
         \<and> (\<forall>i. fd (a ! i) = fd (alloc s ! i))
         \<and> (\<forall>i. i \<notin> set [first_core_of s..<cpu_count s + 1] \<longrightarrow> a ! i = alloc s ! i)
         \<and> (\<forall>c \<in> set [first_core_of s..<cpu_count s + 1]. last (a ! c) = watts_of s c (r c))"
proof -
  let ?cs = "[first_core_of s..<cpu_count s + 1]"
  note rg = sampling_range [OF assms(1)]
  from assms(1) have len: "length (alloc s) = cpu_count s + 1" by (simp add: sampling_state_def)
  have dist: "distinct ?cs" by simp
  have rdok: "\<forall>c \<in> set ?cs. c < length (alloc s)
                \<and> rd (fd (alloc s ! c)) (msr_of s c) = Some (r c)"
    using assms(2) len by (auto simp: readings_def)
  show ?thesis
  proof (cases "first s \<and> verbose s < 2")
    case True
    from read_power_loop_suppressed [OF True dist rdok, of "cpu_count s + 1" "Finite 0"]
    obtain a where a: "read_power_loop rd (cpu_count s + 1) ?cs (Finite 0, s)
                         = Inr (Finite 0, s\<lparr>alloc := a\<rparr>)"
      and rest: "length a = length (alloc s)" "\<forall>i. fd (a ! i) = fd (alloc s ! i)"
        "\<forall>i. i \<notin> set ?cs \<longrightarrow> a ! i = alloc s ! i"
        "\<forall>c \<in> set ?cs. last (a ! c) = watts_of s c (r c)"
      by blast
    have te: "tick_events s r = []"
      by (simp only: tick_events_def True simp_thms if_True)
    have "read_power rd s = Inr (s\<lparr>alloc := a, out := out s @ tick_events s r, first := False\<rparr>)"
      unfolding read_power_def rg(1) a te by simp
    with rest show ?thesis by blast
  next
    case False
    from read_power_loop_printing [OF False dist rdok, of "cpu_count s + 1" "Finite 0"]
    obtain a where a: "read_power_loop rd (cpu_count s + 1) ?cs (Finite 0, s)
         = Inr (loop_sum (\<lambda>c. dsub (watts_of s c (r c)) (last (alloc s ! c))) ?cs (Finite 0),
                s\<lparr>alloc := a,
                  out := out s @ loop_events (print_delta s (cpu_count s + 1))
                           (\<lambda>c. dsub (watts_of s c (r c)) (last (alloc s ! c))) ?cs (Finite 0)\<rparr>)"
      and rest: "length a = length (alloc s)" "\<forall>i. fd (a ! i) = fd (alloc s ! i)"
        "\<forall>i. i \<notin> set ?cs \<longrightarrow> a ! i = alloc s ! i"
        "\<forall>c \<in> set ?cs. last (a ! c) = watts_of s c (r c)"
      by blast
    have te: "tick_events s r = loop_events (print_delta s (cpu_count s + 1))
                           (\<lambda>c. dsub (watts_of s c (r c)) (last (alloc s ! c))) ?cs (Finite 0)"
      by (simp only: tick_events_def False simp_thms if_False)
    have "read_power rd s = Inr (s\<lparr>alloc := a, out := out s @ tick_events s r, first := False\<rparr>)"
      unfolding read_power_def rg(1) a te by simp
    with rest show ?thesis by blast
  qed
qed

section \<open>What a tick prints\<close>

lemma print_delta_package:
  assumes "sampling_state s"
  shows "print_delta s (cpu_count s + 1) (cpu_count s) delta acc =
     [if verbose s = 0 then Printf_plain (dmul delta (scale s))
      else Printf_pkg (dmul delta (scale s))]
     @ (if verbose s \<noteq> 0 \<and> amd_energy_units s \<noteq> 0
        then [Printf_core_sum (dmul acc (scale s))] else [])
     @ [Printf_newline]"
  unfolding print_delta_def sampling_range(4) [OF assms]
  by (simp split del: if_split)

lemma print_delta_core:
  assumes "sampling_state s" and "c < cpu_count s"
  shows "print_delta s (cpu_count s + 1) c delta acc =
     (if verbose s \<noteq> 0 \<and> amd_energy_units s \<noteq> 0 then
        (if c = 0 then [Printf_rule] else [])
        @ (if c mod 8 = 0 then [Printf_core_label c] else [])
        @ [Printf_core (dmul delta (scale s))]
        @ (if c mod 8 = 7 \<or> c = cpu_count s - 1 then [Printf_newline] else [])
        @ (if c = cpu_count s - 1 then [Printf_rule] else [])
      else [])"
proof -
  from assms(2) have pos: "0 < cpu_count s" by simp
  have a: "(c = cpu_count s) = False" "(c = cpu_count s + 1) = False" using assms(2) by simp_all
  show ?thesis
    unfolding print_delta_def sampling_range(3) [OF assms(1)]
      sampling_range(5) [OF assms(1) pos] a
    by (simp split del: if_split)
qed

lemma values_append:
  "pkg_values (xs @ ys) = pkg_values xs @ pkg_values ys"
  "core_values (xs @ ys) = core_values xs @ core_values ys"
  "core_labels (xs @ ys) = core_labels xs @ core_labels ys"
  by (simp_all add: pkg_values_def core_values_def core_labels_def)

lemma values_package:
  assumes "sampling_state s"
  shows "pkg_values (print_delta s (cpu_count s + 1) (cpu_count s) delta acc)
           = [dmul delta (scale s)]"
    and "core_values (print_delta s (cpu_count s + 1) (cpu_count s) delta acc) = []"
    and "core_labels (print_delta s (cpu_count s + 1) (cpu_count s) delta acc) = []"
  unfolding print_delta_package [OF assms]
  by (simp_all add: pkg_values_def core_values_def core_labels_def)

lemma values_core:
  assumes "sampling_state s" and "c < cpu_count s"
  shows "pkg_values (print_delta s (cpu_count s + 1) c delta acc) = []"
    and "core_values (print_delta s (cpu_count s + 1) c delta acc)
           = (if verbose s \<noteq> 0 \<and> amd_energy_units s \<noteq> 0 then [dmul delta (scale s)] else [])"
    and "core_labels (print_delta s (cpu_count s + 1) c delta acc)
           = (if verbose s \<noteq> 0 \<and> amd_energy_units s \<noteq> 0 \<and> c mod 8 = 0 then [c] else [])"
  unfolding print_delta_core [OF assms]
  by (auto simp: pkg_values_def core_values_def core_labels_def)

lemma loop_events_append:
  "loop_events pd d (xs @ ys) acc
     = loop_events pd d xs acc @ loop_events pd d ys (loop_sum d xs acc)"
  by (induction xs arbitrary: acc) simp_all

lemma values_table:
  assumes "sampling_state s" and "\<forall>c \<in> set cs. c < cpu_count s"
  shows "pkg_values (loop_events (print_delta s (cpu_count s + 1)) d cs acc) = []"
    and "core_values (loop_events (print_delta s (cpu_count s + 1)) d cs acc)
           = (if verbose s \<noteq> 0 \<and> amd_energy_units s \<noteq> 0
              then map (\<lambda>c. dmul (d c) (scale s)) cs else [])"
    and "core_labels (loop_events (print_delta s (cpu_count s + 1)) d cs acc)
           = (if verbose s \<noteq> 0 \<and> amd_energy_units s \<noteq> 0
              then filter (\<lambda>c. c mod 8 = 0) cs else [])"
  using assms(2)
proof (induction cs arbitrary: acc)
  case Nil
  {
    case 1 show ?case by (simp add: pkg_values_def)
  next
    case 2 show ?case by (simp add: core_values_def)
  next
    case 3 show ?case by (simp add: core_labels_def)
  }
next
  case (Cons c cs)
  {
    case 1
    then have c: "c < cpu_count s" and r: "\<forall>c \<in> set cs. c < cpu_count s" by simp_all
    show ?case using Cons.IH(1) [OF r] values_core(1) [OF assms(1) c]
      by (simp add: values_append)
  next
    case 2
    then have c: "c < cpu_count s" and r: "\<forall>c \<in> set cs. c < cpu_count s" by simp_all
    show ?case using Cons.IH(2) [OF r] values_core(2) [OF assms(1) c]
      by (simp add: values_append)
  next
    case 3
    then have c: "c < cpu_count s" and r: "\<forall>c \<in> set cs. c < cpu_count s" by simp_all
    show ?case using Cons.IH(3) [OF r] values_core(3) [OF assms(1) c]
      by (simp add: values_append)
  }
qed

section \<open>Two consecutive ticks\<close>

lemma tick_events_printing:
  assumes "sampling_state s" and "\<not> (first s \<and> verbose s < 2)"
  shows "tick_events s r =
     loop_events (print_delta s (cpu_count s + 1))
       (\<lambda>c. dsub (watts_of s c (r c)) (last (alloc s ! c)))
       [first_core_of s..<cpu_count s] (Finite 0)
     @ print_delta s (cpu_count s + 1) (cpu_count s)
         (dsub (watts_of s (cpu_count s) (r (cpu_count s))) (last (alloc s ! cpu_count s)))
         (loop_sum (\<lambda>c. dsub (watts_of s c (r c)) (last (alloc s ! c)))
            [first_core_of s..<cpu_count s] (Finite 0))"
proof -
  have "first_core_of s \<le> cpu_count s" by (simp add: first_core_of_def)
  then have sp: "[first_core_of s..<cpu_count s + 1] = [first_core_of s..<cpu_count s] @ [cpu_count s]"
    by simp
  have te: "tick_events s r = loop_events (print_delta s (cpu_count s + 1))
       (\<lambda>c. dsub (watts_of s c (r c)) (last (alloc s ! c)))
       [first_core_of s..<cpu_count s + 1] (Finite 0)"
    by (simp only: tick_events_def assms(2) simp_thms if_False)
  show ?thesis unfolding te sp loop_events_append by simp
qed

lemma tick_events_values:
  assumes "sampling_state s" and "\<not> (first s \<and> verbose s < 2)"
  shows "pkg_values (tick_events s r)
           = [dmul (dsub (watts_of s (cpu_count s) (r (cpu_count s)))
                         (last (alloc s ! cpu_count s))) (scale s)]"
    and "core_values (tick_events s r)
           = (if verbose s \<noteq> 0 \<and> amd_energy_units s \<noteq> 0
              then map (\<lambda>c. dmul (dsub (watts_of s c (r c)) (last (alloc s ! c))) (scale s))
                     [first_core_of s..<cpu_count s]
              else [])"
proof -
  have b: "\<forall>c \<in> set [first_core_of s..<cpu_count s]. c < cpu_count s" by simp
  show "pkg_values (tick_events s r)
           = [dmul (dsub (watts_of s (cpu_count s) (r (cpu_count s)))
                         (last (alloc s ! cpu_count s))) (scale s)]"
    unfolding tick_events_printing [OF assms] values_append
      values_table(1) [OF assms(1) b] values_package(1) [OF assms(1)]
    by simp
  show "core_values (tick_events s r)
           = (if verbose s \<noteq> 0 \<and> amd_energy_units s \<noteq> 0
              then map (\<lambda>c. dmul (dsub (watts_of s c (r c)) (last (alloc s ! c))) (scale s))
                     [first_core_of s..<cpu_count s]
              else [])"
    unfolding tick_events_printing [OF assms] values_append
      values_table(2) [OF assms(1) b] values_package(2) [OF assms(1)]
    by simp
qed

text \<open>The state after a tick is again a sampling state, with the same descriptors.\<close>

lemma sampling_state_after:
  assumes "sampling_state s" and "length a = length (alloc s)"
  shows "sampling_state (s\<lparr>alloc := a, out := ou, first := b\<rparr>)"
  using assms by (simp add: sampling_state_def)

lemma readings_after:
  assumes "readings rd s r" and "\<forall>i. fd (a ! i) = fd (alloc s ! i)"
  shows "readings rd (s\<lparr>alloc := a, out := ou, first := b\<rparr>) r"
proof -
  have "msr_of (s\<lparr>alloc := a, out := ou, first := b\<rparr>) = msr_of s"
    unfolding msr_of_def fun_eq_iff by (simp split del: if_split cong: if_cong)
  moreover have "first_core_of (s\<lparr>alloc := a, out := ou, first := b\<rparr>) = first_core_of s"
    by (simp add: first_core_of_def)
  ultimately show ?thesis using assms by (simp add: readings_def)
qed

lemma config_after:
  "watts_of (s\<lparr>alloc := a, out := ou, first := b\<rparr>) = watts_of s"
  "first_core_of (s\<lparr>alloc := a, out := ou, first := b\<rparr>) = first_core_of s"
  unfolding watts_of_def amd_add_power_def first_core_of_def fun_eq_iff
  by (simp_all split del: if_split cong: if_cong)

lemma two_ticks:
  assumes ss: "sampling_state s" and r1: "readings rd1 s r1" and r2: "readings rd2 s r2"
  shows "\<exists>s1 s2 evs. read_power rd1 s = Inr s1 \<and> read_power rd2 s1 = Inr s2
      \<and> (\<forall>c \<in> set [first_core_of s..<cpu_count s + 1].
            last (alloc s1 ! c) = watts_of s c (r1 c) \<and> last (alloc s2 ! c) = watts_of s c (r2 c))
      \<and> out s2 = out s1 @ evs
      \<and> pkg_values evs
          = [dmul (dsub (watts_of s (cpu_count s) (r2 (cpu_count s)))
                        (watts_of s (cpu_count s) (r1 (cpu_count s)))) (scale s)]
      \<and> core_values evs
          = (if verbose s \<noteq> 0 \<and> amd_energy_units s \<noteq> 0
             then map (\<lambda>c. dmul (dsub (watts_of s c (r2 c)) (watts_of s c (r1 c))) (scale s))
                    [first_core_of s..<cpu_count s]
             else [])"
proof -
  let ?cs = "[first_core_of s..<cpu_count s + 1]"
  from read_power_tick [OF ss r1]
  obtain a where t1: "read_power rd1 s
             = Inr (s\<lparr>alloc := a, out := out s @ tick_events s r1, first := False\<rparr>)"
    and la: "length a = length (alloc s)"
    and fa: "\<forall>i. fd (a ! i) = fd (alloc s ! i)"
    and wa: "\<forall>c \<in> set ?cs. last (a ! c) = watts_of s c (r1 c)"
    by blast
  let ?s1 = "s\<lparr>alloc := a, out := out s @ tick_events s r1, first := False\<rparr>"
  have ss1: "sampling_state ?s1" using ss la by (rule sampling_state_after)
  have r21: "readings rd2 ?s1 r2" using r2 fa by (rule readings_after)
  have cnt: "cpu_count ?s1 = cpu_count s" "scale ?s1 = scale s" "verbose ?s1 = verbose s"
    "amd_energy_units ?s1 = amd_energy_units s" "alloc ?s1 = a" by simp_all
  from read_power_tick [OF ss1 r21]
  obtain a2 where t2: "read_power rd2 ?s1
             = Inr (?s1\<lparr>alloc := a2, out := out ?s1 @ tick_events ?s1 r2, first := False\<rparr>)"
    and wa2: "\<forall>c \<in> set [first_core_of ?s1..<cpu_count ?s1 + 1].
                 last (a2 ! c) = watts_of ?s1 c (r2 c)"
    by blast
  let ?s2 = "?s1\<lparr>alloc := a2, out := out ?s1 @ tick_events ?s1 r2, first := False\<rparr>"
  have pr: "\<not> (first ?s1 \<and> verbose ?s1 < 2)" by simp
  have lasts: "\<forall>c \<in> set ?cs. last (alloc ?s1 ! c) = watts_of s c (r1 c)
                 \<and> last (alloc ?s2 ! c) = watts_of s c (r2 c)"
    using wa wa2 unfolding config_after cnt by simp
  have n: "cpu_count s \<in> set ?cs" by (simp add: first_core_of_def)
  have pk: "pkg_values (tick_events ?s1 r2)
          = [dmul (dsub (watts_of s (cpu_count s) (r2 (cpu_count s)))
                        (watts_of s (cpu_count s) (r1 (cpu_count s)))) (scale s)]"
    unfolding tick_events_values(1) [OF ss1 pr] config_after cnt
    using wa n by simp
  have sub: "\<forall>c \<in> set [first_core_of s..<cpu_count s]. last (a ! c) = watts_of s c (r1 c)"
    using wa by simp
  have mp: "map (\<lambda>c. dmul (dsub (watts_of s c (r2 c)) (last (a ! c))) (scale s))
              [first_core_of s..<cpu_count s]
          = map (\<lambda>c. dmul (dsub (watts_of s c (r2 c)) (watts_of s c (r1 c))) (scale s))
              [first_core_of s..<cpu_count s]"
    using sub by (intro map_cong) simp_all
  have cv: "core_values (tick_events ?s1 r2)
          = (if verbose s \<noteq> 0 \<and> amd_energy_units s \<noteq> 0
             then map (\<lambda>c. dmul (dsub (watts_of s c (r2 c)) (watts_of s c (r1 c))) (scale s))
                    [first_core_of s..<cpu_count s]
             else [])"
    unfolding tick_events_values(2) [OF ss1 pr] config_after cnt mp ..
  have o: "out ?s2 = out ?s1 @ tick_events ?s1 r2" by simp
  from t1 t2 lasts o pk cv show ?thesis by blast
qed

text \<open>
  C1, as the code has it.  In a state in which \<open>read_power\<close> stays inside the array,
  for two consecutive ticks whose reads succeed with raw readings \<open>r1\<close> and then \<open>r2\<close>:
  both ticks return, each stores \<open>f\<close> of its reading as the last value of every slot it
  reads (the package slot, and every core slot on AMD at verbosity at least 1), and the
  second tick reports \<open>(f r2 - f r1) * scale\<close> for the package and, where the cores are
  printed, for every core in turn.  \<open>f\<close> is the conversion \<open>watts_of\<close> of the code: on
  AMD with a unit exponent up to 30 it is \<open>(raw * 10^6 / 2^exponent) / 10^6\<close>, on Intel it
  is \<open>raw * energy_units\<close> for the package.  \<open>scale\<close> is the stored scale factor.
\<close>

theorem consecutive_ticks_report_scaled_delta:
  assumes "sampling_state s" and "readings rd1 s r1" and "readings rd2 s r2"
  shows "(\<exists>s1 s2 evs. read_power rd1 s = Inr s1 \<and> read_power rd2 s1 = Inr s2
      \<and> (\<forall>c \<in> set [first_core_of s..<cpu_count s + 1].
            last (alloc s1 ! c) = watts_of s c (r1 c) \<and> last (alloc s2 ! c) = watts_of s c (r2 c))
      \<and> out s2 = out s1 @ evs
      \<and> pkg_values evs
          = [dmul (dsub (watts_of s (cpu_count s) (r2 (cpu_count s)))
                        (watts_of s (cpu_count s) (r1 (cpu_count s)))) (scale s)]
      \<and> core_values evs
          = (if verbose s \<noteq> 0 \<and> amd_energy_units s \<noteq> 0
             then map (\<lambda>c. dmul (dsub (watts_of s c (r2 c)) (watts_of s c (r1 c))) (scale s))
                    [first_core_of s..<cpu_count s]
             else []))
   \<and> (cpu s = AMD \<and> amd_energy_units s \<le> 30 \<longrightarrow>
        (\<forall>c data. watts_of s c data
           = Finite ((real (unat data) * 1000000 / 2 ^ amd_energy_units s) / 1000000)))
   \<and> (cpu s = INTEL \<longrightarrow>
        (\<forall>u data. energy_units s = Finite u \<longrightarrow>
           watts_of s (cpu_count s) data = Finite (real (unat data) * u)))"
proof -
  have i: "cpu s = INTEL \<Longrightarrow> energy_units s = Finite u \<Longrightarrow>
      watts_of s (cpu_count s) data = Finite (real (unat data) * u)" for u data
    by (simp add: watts_of_def intel_add_power_def double_of_uint64_def)
  show ?thesis using two_ticks [OF assms] watts_of_amd [of s] i by blast
qed

lemma amd_example_watts:
  "watts_of (amd_example 1 16 1) c 65536 = Finite 1"
  "watts_of (amd_example 1 16 1) c 196608 = Finite 3"
proof -
  have a: "cpu (amd_example 1 16 1) = AMD" "amd_energy_units (amd_example 1 16 1) = 16"
    by (simp_all add: amd_example_def initial_state_def)
  have b: "amd_energy_units (amd_example 1 16 1) \<le> 30" unfolding a by simp
  show "watts_of (amd_example 1 16 1) c 65536 = Finite 1"
    unfolding watts_of_amd [OF a(1) b] a by simp
  show "watts_of (amd_example 1 16 1) c 196608 = Finite 3"
    unfolding watts_of_amd [OF a(1) b] a by simp
qed

theorem consecutive_ticks_report_scaled_delta_witness:
  "sampling_state (amd_example 1 16 1)
   \<and> readings (constant_reader 65536) (amd_example 1 16 1) (\<lambda>c. 65536)
   \<and> readings (constant_reader 196608) (amd_example 1 16 1) (\<lambda>c. 196608)
   \<and> (\<exists>s1 s2 evs. read_power (constant_reader 65536) (amd_example 1 16 1) = Inr s1
        \<and> read_power (constant_reader 196608) s1 = Inr s2
        \<and> last (alloc s1 ! 0) = Finite 1 \<and> last (alloc s2 ! 0) = Finite 3
        \<and> out s2 = out s1 @ evs
        \<and> pkg_values evs = [Finite 2] \<and> core_values evs = [Finite 2])"
proof -
  let ?s = "amd_example 1 16 1"
  have f: "cpu_count ?s = 1" "first_core_of ?s = 0" "verbose ?s = 1" "amd_energy_units ?s = 16"
    "scale ?s = Finite 1"
    by (simp_all add: amd_example_def initial_state_def first_core_of_def AMD_ENERGY_CORE_MSR_def)
  have ss: "sampling_state ?s"
    by (simp add: sampling_state_def amd_example_def initial_state_def AMD_ENERGY_CORE_MSR_def)
  have r1: "readings (constant_reader v) ?s (\<lambda>c. v)" for v
    by (simp add: readings_def constant_reader_def)
  from consecutive_ticks_report_scaled_delta [OF ss r1 r1, of 65536 196608]
  obtain s1 s2 evs where run: "read_power (constant_reader 65536) ?s = Inr s1"
      "read_power (constant_reader 196608) s1 = Inr s2"
    and l: "\<forall>c \<in> set [first_core_of ?s..<cpu_count ?s + 1].
            last (alloc s1 ! c) = watts_of ?s c 65536 \<and> last (alloc s2 ! c) = watts_of ?s c 196608"
    and o: "out s2 = out s1 @ evs"
    and p: "pkg_values evs
          = [dmul (dsub (watts_of ?s (cpu_count ?s) 196608)
                        (watts_of ?s (cpu_count ?s) 65536)) (scale ?s)]"
    and c: "core_values evs
          = (if verbose ?s \<noteq> 0 \<and> amd_energy_units ?s \<noteq> 0
             then map (\<lambda>c. dmul (dsub (watts_of ?s c 196608) (watts_of ?s c 65536)) (scale ?s))
                    [first_core_of ?s..<cpu_count ?s]
             else [])"
    by blast
  from l have l0: "last (alloc s1 ! 0) = Finite 1" "last (alloc s2 ! 0) = Finite 3"
    unfolding f amd_example_watts by simp_all
  from p have p': "pkg_values evs = [Finite 2]"
    unfolding f amd_example_watts by (simp add: dsub_def)
  from c have c': "core_values evs = [Finite 2]"
    unfolding f amd_example_watts by (simp add: dsub_def)
  from ss r1 run l0 o p' c' show ?thesis by blast
qed

text \<open>
  The claim C1 fails where it takes the scale to be the reciprocal of the interval: with
  an interval of 2.5 seconds and package readings 1000 then 3000 on Intel with
  \<open>energy_units = 0.5^10\<close>, the second tick reports \<open>2000 * 0.5^10 * (1 / 2)\<close>, which is
  not \<open>2000 * 0.5^10 * (1 / 2.5)\<close>.
\<close>

theorem scale_reciprocal_of_interval_counterexample:
  "out (result_state (main_loop [constant_reader 1000, constant_reader 3000]
          ((intel_example 0)\<lparr>timeo := timeo (main_args [] (Some (Finite (5 / 2)))),
                              scale := scale (main_args [] (Some (Finite (5 / 2))))\<rparr>)))
     = [Printf_plain (Finite (125 / 128)), Printf_newline]
   \<and> Finite (125 / 128)
       \<noteq> dmul (ddiv (Finite 1) (Finite (5 / 2)))
              (dsub (intel_add_power 3000 (pow_half 10)) (intel_add_power 1000 (pow_half 10)))"
proof -
  have m: "timeo (main_args [] (Some (Finite (5 / 2)))) = 2"
    "scale (main_args [] (Some (Finite (5 / 2)))) = Finite (1 / 2)"
    by (simp_all add: main_args_def int_of_double_def double_of_int_def)
  have p: "pow_half 10 = Finite (1 / 1024)" by (simp add: pow_half_def power_divide)
  show ?thesis
    unfolding m
    by (simp add: tick_defs example_defs and_then_def result_state_def double_of_uint64_def
        dsub_def p)
qed

section \<open>The first tick\<close>

lemma read_power_step_silent:
  assumes "first (snd cs) \<and> verbose (snd cs) < 2"
  shows "out (step_state (read_power_step rd mx core cs)) = out (snd cs)"
proof -
  obtain acc s where cs: "cs = (acc, s)" by (cases cs)
  from assms cs have q: "first s \<and> verbose s < 2" by simp
  show ?thesis
  proof (cases "length (alloc s) \<le> core")
    case True
    then show ?thesis unfolding cs by (simp add: read_power_step_def step_state_def)
  next
    case False
    then have c: "core < length (alloc s)" by simp
    show ?thesis
    proof (cases "rd (fd (alloc s ! core)) (msr_of s core)")
      case None
      with False show ?thesis unfolding cs
        by (simp add: read_power_step_def read_msr_def step_state_def)
    next
      case (Some data)
      have "read_power_step rd mx core (acc, s) =
          Inr (acc, s\<lparr>alloc := (alloc s)[core := (alloc s ! core)\<lparr>last := watts_of s core data\<rparr>]\<rparr>)"
        using c Some q by (rule read_power_step_suppressed)
      then show ?thesis unfolding cs by (simp add: step_state_def)
    qed
  qed
qed

lemma read_power_loop_silent:
  assumes "first (snd cs) \<and> verbose (snd cs) < 2"
  shows "out (step_state (read_power_loop rd mx cores cs)) = out (snd cs)"
  using assms
proof (induction cores arbitrary: cs)
  case Nil
  show ?case by (cases cs) (simp add: step_state_def)
next
  case (Cons core cores)
  show ?case
  proof (cases "read_power_step rd mx core cs")
    case (Inl e)
    with read_power_step_silent [OF Cons.prems, of rd mx core] show ?thesis by simp
  next
    case (Inr cs')
    have s: "step_state (read_power_step rd mx core cs) = snd cs'"
      using Inr by (cases cs') (simp add: step_state_def)
    from read_power_step_unchanged [of cs rd mx core] read_power_step_first [of rd mx core cs]
    have "verbose (snd cs') = verbose (snd cs)" "first (snd cs') = first (snd cs)"
      unfolding s by (simp_all add: unchanged_config_fields)
    with Cons.prems have p: "first (snd cs') \<and> verbose (snd cs') < 2" by simp
    from read_power_step_silent [OF Cons.prems, of rd mx core]
    have "out (snd cs') = out (snd cs)" unfolding s .
    with Cons.IH [OF p] Inr show ?thesis by simp
  qed
qed

lemma read_power_silent:
  assumes "first s \<and> verbose s < 2"
  shows "out (result_state (read_power rd s)) = out s"
proof -
  let ?l = "read_power_loop rd (max_of s) [first_core_of s..<max_of s] (Finite 0, s)"
  have o: "out (step_state ?l) = out s"
    using read_power_loop_silent [of "(Finite 0, s)"] assms by simp
  show ?thesis
  proof (cases ?l)
    case (Inl e)
    with o show ?thesis by (cases e) (simp add: read_power_def result_state_def step_state_def)
  next
    case (Inr cs)
    with o show ?thesis by (cases cs) (simp add: read_power_def result_state_def step_state_def)
  qed
qed


























section \<open>The unit exponent gates the core report\<close>

lemma loop_events_no_units:
  assumes "sampling_state s" and "\<forall>c \<in> set cs. c < cpu_count s"
    and "amd_energy_units s = 0"
  shows "loop_events (print_delta s (cpu_count s + 1)) d cs acc = []"
  using assms(2)
proof (induction cs arbitrary: acc)
  case Nil
  show ?case by simp
next
  case (Cons c cs)
  then have c: "c < cpu_count s" and r: "\<forall>c \<in> set cs. c < cpu_count s" by simp_all
  have "print_delta s (cpu_count s + 1) c (d c) acc = []"
    unfolding print_delta_core [OF assms(1) c] using assms(3) by simp
  with Cons.IH [OF r] show ?case by simp
qed

lemma cores_read:
  assumes "verbose s \<noteq> 0" and "core_msr s \<noteq> 0"
  shows "first_core_of s = 0"
  using assms by (simp add: first_core_of_def)

text \<open>
  C9.  On the path that reads the core registers (verbosity at least 1 and a core
  register, as on AMD), when the stored unit exponent is 0 a tick whose reads succeed
  prints nothing on its first run at verbosity 1 and otherwise only \<open>pkg:\<close> with the
  package value and a newline, with neither the core sum nor any line of the per-core
  table; yet it stores the converted reading as the last value of every core slot and of
  the package slot.
\<close>

theorem zero_exponent_hides_core_report:
  assumes "sampling_state s" and "verbose s \<noteq> 0" and "core_msr s \<noteq> 0"
    and "amd_energy_units s = 0" and "readings rd s r"
  shows "\<exists>s'. read_power rd s = Inr s'
     \<and> out s' = out s @
         (if first s \<and> verbose s < 2 then []
          else [Printf_pkg (dmul (dsub (watts_of s (cpu_count s) (r (cpu_count s)))
                                       (last (alloc s ! cpu_count s))) (scale s)),
                Printf_newline])
     \<and> (\<forall>c \<in> set [0..<cpu_count s + 1]. last (alloc s' ! c) = watts_of s c (r c))"
proof -
  note fc = cores_read [OF assms(2,3)]
  from read_power_tick [OF assms(1,5)]
  obtain a where run: "read_power rd s
             = Inr (s\<lparr>alloc := a, out := out s @ tick_events s r, first := False\<rparr>)"
    and wa: "\<forall>c \<in> set [first_core_of s..<cpu_count s + 1]. last (a ! c) = watts_of s c (r c)"
    by blast
  let ?s' = "s\<lparr>alloc := a, out := out s @ tick_events s r, first := False\<rparr>"
  have ev: "tick_events s r =
         (if first s \<and> verbose s < 2 then []
          else [Printf_pkg (dmul (dsub (watts_of s (cpu_count s) (r (cpu_count s)))
                                       (last (alloc s ! cpu_count s))) (scale s)),
                Printf_newline])"
  proof (cases "first s \<and> verbose s < 2")
    case True
    have "tick_events s r = []" by (simp only: tick_events_def True if_True simp_thms)
    moreover have "(if first s \<and> verbose s < 2 then [] else x) = []" for x :: "event list"
      by (simp only: True if_True simp_thms)
    ultimately show ?thesis by (simp only:)
  next
    case False
    have b: "\<forall>c \<in> set [first_core_of s..<cpu_count s]. c < cpu_count s" by simp
    have e: "(if first s \<and> verbose s < 2 then [] else x) = x" for x :: "event list"
      by (simp only: False if_False simp_thms)
    show ?thesis
      unfolding tick_events_printing [OF assms(1) False] e
        loop_events_no_units [OF assms(1) b assms(4)] print_delta_package [OF assms(1)]
      using assms(2,4) by simp
  qed
  have "out ?s' = out s @ tick_events s r" by simp
  moreover have "\<forall>c \<in> set [0..<cpu_count s + 1]. last (alloc ?s' ! c) = watts_of s c (r c)"
    using wa unfolding fc by simp
  ultimately show ?thesis using run unfolding ev by blast
qed

theorem zero_exponent_hides_core_report_witness:
  "sampling_state ((amd_example 1 0 1)\<lparr>first := False\<rparr>)
   \<and> readings (constant_reader 7) ((amd_example 1 0 1)\<lparr>first := False\<rparr>) (\<lambda>c. 7)
   \<and> (\<exists>s'. read_power (constant_reader 7) ((amd_example 1 0 1)\<lparr>first := False\<rparr>) = Inr s'
         \<and> out s' = [Printf_pkg (Finite 7), Printf_newline]
         \<and> last (alloc s' ! 0) = Finite 7 \<and> last (alloc s' ! 1) = Finite 7)"
proof -
  let ?s = "(amd_example 1 0 1)\<lparr>first := False\<rparr>"
  have f: "verbose ?s \<noteq> 0" "core_msr ?s \<noteq> 0" "amd_energy_units ?s = 0"
    by (simp_all add: amd_example_def initial_state_def AMD_ENERGY_CORE_MSR_def)
  have g: "cpu_count ?s = 1" "out ?s = []" "first ?s = False" "scale ?s = Finite 1"
    "last (alloc ?s ! 1) = Finite 0"
    by (simp_all add: amd_example_def initial_state_def)
  have ss: "sampling_state ?s"
    by (simp add: sampling_state_def amd_example_def initial_state_def AMD_ENERGY_CORE_MSR_def)
  have rs: "readings (constant_reader 7) ?s (\<lambda>c. 7)"
    by (simp add: readings_def constant_reader_def)
  have w: "watts_of ?s c 7 = Finite 7" for c
  proof -
    have a: "cpu ?s = AMD" by (simp add: amd_example_def initial_state_def)
    have b: "amd_energy_units ?s \<le> 30" unfolding f by simp
    show ?thesis unfolding watts_of_amd [OF a b] f by simp
  qed
  from zero_exponent_hides_core_report [OF ss f rs]
  obtain s' where run: "read_power (constant_reader 7) ?s = Inr s'"
    and o: "out s' = out ?s @
         (if first ?s \<and> verbose ?s < 2 then []
          else [Printf_pkg (dmul (dsub (watts_of ?s (cpu_count ?s) 7)
                                       (last (alloc ?s ! cpu_count ?s))) (scale ?s)),
                Printf_newline])"
    and l: "\<forall>c \<in> set [0..<cpu_count ?s + 1]. last (alloc s' ! c) = watts_of ?s c 7"
    by blast
  from o have o': "out s' = [Printf_pkg (Finite 7), Printf_newline]"
    unfolding g w by (simp add: dsub_def)
  from l have l': "last (alloc s' ! 0) = Finite 7" "last (alloc s' ! 1) = Finite 7"
    unfolding g w by simp_all
  from ss rs run o' l' show ?thesis by blast
qed

section \<open>The per-core table\<close>

lemma table_ends:
  assumes ss: "sampling_state s" and v: "verbose s \<noteq> 0" and u: "amd_energy_units s \<noteq> 0"
    and n: "0 < cpu_count s"
  shows "hd (loop_events (print_delta s (cpu_count s + 1)) d [0..<cpu_count s] acc) = Printf_rule"
    and "List.last (loop_events (print_delta s (cpu_count s + 1)) d [0..<cpu_count s] acc)
           = Printf_rule"
proof -
  let ?pd = "print_delta s (cpu_count s + 1)"
  from n have h: "[0..<cpu_count s] = 0 # [1..<cpu_count s]" by (simp add: upt_conv_Cons)
  have p0: "?pd 0 delta a = Printf_rule #
      ([Printf_core_label 0, Printf_core (dmul delta (scale s))]
       @ (if (0::nat) mod 8 = 7 \<or> 0 = cpu_count s - 1 then [Printf_newline] else [])
       @ (if 0 = cpu_count s - 1 then [Printf_rule] else []))" for delta a
    unfolding print_delta_core [OF ss n] using v u by simp
  show "hd (loop_events ?pd d [0..<cpu_count s] acc) = Printf_rule"
    unfolding h loop_events.simps p0 by simp
  from n obtain k where k: "cpu_count s = Suc k" by (cases "cpu_count s") simp_all
  then have t: "[0..<cpu_count s] = [0..<k] @ [k]" by simp
  have kl: "k < cpu_count s" using k by simp
  have pk: "?pd k delta a =
      ((if k = 0 then [Printf_rule] else [])
       @ (if k mod 8 = 0 then [Printf_core_label k] else [])
       @ [Printf_core (dmul delta (scale s)), Printf_newline])
      @ [Printf_rule]" for delta a
    unfolding print_delta_core [OF ss kl] using v u k by simp
  show "List.last (loop_events ?pd d [0..<cpu_count s] acc) = Printf_rule"
    unfolding t loop_events_append loop_events.simps pk by simp
qed

text \<open>
  C3, as the code has it.  On the path that reads the core registers with a nonzero
  unit exponent and at least one core, every tick that prints, at verbosity 1 as at any
  higher verbosity, writes the per-core table and then the package line: the table
  starts and ends with a rule line, labels every eighth core starting from core 0 and
  holds one value for each core; the package line is \<open>pkg:\<close> with the package value, the
  core sum and a newline.  At verbosity 1 the first tick prints nothing.
\<close>

theorem core_table_at_every_verbosity:
  assumes "sampling_state s" and "verbose s \<noteq> 0" and "core_msr s \<noteq> 0"
    and "amd_energy_units s \<noteq> 0" and "0 < cpu_count s" and "readings rd s r"
  shows "(first s \<and> verbose s < 2 \<longrightarrow> out (result_state (read_power rd s)) = out s)
     \<and> (\<not> (first s \<and> verbose s < 2) \<longrightarrow>
         (\<exists>s' table p q. read_power rd s = Inr s'
            \<and> out s' = out s @ table @ [Printf_pkg p, Printf_core_sum q, Printf_newline]
            \<and> hd table = Printf_rule \<and> List.last table = Printf_rule
            \<and> core_labels table = filter (\<lambda>c. c mod 8 = 0) [0..<cpu_count s]
            \<and> length (core_values table) = cpu_count s
            \<and> pkg_values table = []))"
proof -
  note fc = cores_read [OF assms(2,3)]
  let ?d = "\<lambda>c. dsub (watts_of s c (r c)) (last (alloc s ! c))"
  let ?table = "loop_events (print_delta s (cpu_count s + 1)) ?d [0..<cpu_count s] (Finite 0)"
  have printing: "\<exists>s' table p q. read_power rd s = Inr s'
            \<and> out s' = out s @ table @ [Printf_pkg p, Printf_core_sum q, Printf_newline]
            \<and> hd table = Printf_rule \<and> List.last table = Printf_rule
            \<and> core_labels table = filter (\<lambda>c. c mod 8 = 0) [0..<cpu_count s]
            \<and> length (core_values table) = cpu_count s
            \<and> pkg_values table = []"
    if pr: "\<not> (first s \<and> verbose s < 2)"
  proof -
    from read_power_tick [OF assms(1,6)]
    obtain a where run: "read_power rd s
             = Inr (s\<lparr>alloc := a, out := out s @ tick_events s r, first := False\<rparr>)"
      by blast
    let ?s' = "s\<lparr>alloc := a, out := out s @ tick_events s r, first := False\<rparr>"
    have ev: "tick_events s r = ?table @
        [Printf_pkg (dmul (?d (cpu_count s)) (scale s)),
         Printf_core_sum (dmul (loop_sum ?d [0..<cpu_count s] (Finite 0)) (scale s)),
         Printf_newline]"
      unfolding tick_events_printing [OF assms(1) pr] fc print_delta_package [OF assms(1)]
      using assms(2,4) by simp
    have o: "out ?s' = out s @ ?table @
        [Printf_pkg (dmul (?d (cpu_count s)) (scale s)),
         Printf_core_sum (dmul (loop_sum ?d [0..<cpu_count s] (Finite 0)) (scale s)),
         Printf_newline]"
      unfolding ev by simp
    have b: "\<forall>c \<in> set [0..<cpu_count s]. c < cpu_count s" by simp
    have lb: "core_labels ?table = filter (\<lambda>c. c mod 8 = 0) [0..<cpu_count s]"
      unfolding values_table(3) [OF assms(1) b] using assms(2,4) by simp
    have cv: "length (core_values ?table) = cpu_count s"
      unfolding values_table(2) [OF assms(1) b] using assms(2,4) by simp
    have pv: "pkg_values ?table = []" by (rule values_table(1) [OF assms(1) b])
    from run o table_ends [OF assms(1,2,4,5), of ?d "Finite 0"] lb cv pv
    show ?thesis by blast
  qed
  show ?thesis using read_power_silent [of s rd] printing by blast
qed


theorem core_table_at_every_verbosity_witness:
  "sampling_state ((amd_example 1 16 1)\<lparr>first := False\<rparr>)
   \<and> readings (constant_reader 65536) ((amd_example 1 16 1)\<lparr>first := False\<rparr>) (\<lambda>c. 65536)
   \<and> (\<exists>s' table p q.
         read_power (constant_reader 65536) ((amd_example 1 16 1)\<lparr>first := False\<rparr>) = Inr s'
         \<and> out s' = table @ [Printf_pkg p, Printf_core_sum q, Printf_newline]
         \<and> hd table = Printf_rule \<and> List.last table = Printf_rule
         \<and> core_labels table = [0] \<and> length (core_values table) = 1)"
proof -
  let ?s = "(amd_example 1 16 1)\<lparr>first := False\<rparr>"
  have f: "verbose ?s \<noteq> 0" "core_msr ?s \<noteq> 0" "amd_energy_units ?s \<noteq> 0" "0 < cpu_count ?s"
    by (simp_all add: amd_example_def initial_state_def AMD_ENERGY_CORE_MSR_def)
  have g: "cpu_count ?s = 1" "out ?s = []" "\<not> (first ?s \<and> verbose ?s < 2)"
    by (simp_all add: amd_example_def initial_state_def)
  have ss: "sampling_state ?s"
    by (simp add: sampling_state_def amd_example_def initial_state_def AMD_ENERGY_CORE_MSR_def)
  have rs: "readings (constant_reader 65536) ?s (\<lambda>c. 65536)"
    by (simp add: readings_def constant_reader_def)
  from core_table_at_every_verbosity [OF ss f rs] g(3)
  obtain s' table p q where "read_power (constant_reader 65536) ?s = Inr s'"
    and "out s' = out ?s @ table @ [Printf_pkg p, Printf_core_sum q, Printf_newline]"
    and "hd table = Printf_rule" and "List.last table = Printf_rule"
    and "core_labels table = filter (\<lambda>c. c mod 8 = 0) [0..<cpu_count ?s]"
    and "length (core_values table) = cpu_count ?s"
    by blast
  then have "read_power (constant_reader 65536) ?s = Inr s'
         \<and> out s' = table @ [Printf_pkg p, Printf_core_sum q, Printf_newline]
         \<and> hd table = Printf_rule \<and> List.last table = Printf_rule
         \<and> core_labels table = [0] \<and> length (core_values table) = 1"
    unfolding g by simp
  with ss rs show ?thesis by blast
qed

text \<open>
  The claim C3 fails at verbosity exactly 1: on AMD with one core and unit exponent 16,
  a tick after the first prints the per-core table (rule line, \<open>core 0:\<close> row, rule line)
  before the package line.
\<close>

theorem core_table_at_verbosity_one_counterexample:
  "verbose ((amd_example 1 16 1)\<lparr>first := False\<rparr>) = 1
   \<and> out (result_state (read_power (constant_reader 65536)
                          ((amd_example 1 16 1)\<lparr>first := False\<rparr>)))
       = [Printf_rule, Printf_core_label 0, Printf_core (Finite 1), Printf_newline, Printf_rule,
          Printf_pkg (Finite 1), Printf_core_sum (Finite 1), Printf_newline]"
  by (simp add: tick_defs example_defs result_state_def double_of_uint64_def double_of_int_def
      int_shl1_def dsub_def)

end
